theory Spec2Isabelle
  imports
    Complex_Main
    "HOL-Library.AList"
    "HOL-Library.Multiset"
    "HOL-Library.Char_ord"
    "HOL-Library.List_Lexorder"
    "HOL-Library.Code_Target_Nat"
begin

section \<open>Data model\<close>

text \<open>
  The embedding follows \<^verbatim>\<open>src/minswap/transactions.py\<close>. Exceptions are values
  of \<open>py_error\<close>; a function that can raise returns \<open>py_error + 'a\<close>.
\<close>

datatype py_error = IndexError | ValueError | FileNotFoundError

text \<open>
  A Python \<^verbatim>\<open>datetime\<close> at the resolution the cache stores (\<^verbatim>\<open>datetime64[s]\<close>):
  the calendar fields, read by \<^verbatim>\<open>.year\<close> and \<^verbatim>\<open>.month\<close>.
\<close>

record datetime =
  year :: nat
  month :: nat
  day :: nat
  hour :: nat
  minute :: nat
  second :: nat

definition is_leap :: "nat \<Rightarrow> bool" where
  "is_leap y = (y mod 4 = 0 \<and> (y mod 100 \<noteq> 0 \<or> y mod 400 = 0))"

definition days_before_year :: "nat \<Rightarrow> nat" where
  "days_before_year y = (y - 1) * 365 + (y - 1) div 4 - (y - 1) div 100 + (y - 1) div 400"

definition days_before_month :: "nat \<Rightarrow> nat \<Rightarrow> nat" where
  "days_before_month y m =
     [0, 0, 31, 59, 90, 120, 151, 181, 212, 243, 273, 304, 334] ! m
       + (if 2 < m \<and> is_leap y then 1 else 0)"

text \<open>
  The value of a datetime as \<^verbatim>\<open>datetime64[s]\<close>: whole seconds on the proleptic
  Gregorian calendar, counted from ordinal day 0 (the epoch is a constant shift,
  which no comparison or difference sees). Comparisons \<^verbatim>\<open>df.time > threshold\<close>
  and differences \<^verbatim>\<open>(a - b).total_seconds()\<close> are taken on this value.
\<close>

definition datetime64 :: "datetime \<Rightarrow> int" where
  "datetime64 t =
     int ((days_before_year (year t) + days_before_month (year t) (month t) + day t) * 86400
          + hour t * 3600 + minute t * 60 + second t)"

text \<open>\<^verbatim>\<open>minswap.models.PoolTransactionReference\<close>: one row of the reference cache.\<close>

record PoolTransactionReference =
  tx_hash :: string
  tx_index :: int
  block_height :: int
  time :: datetime

text \<open>
  A row of the frame built by \<^verbatim>\<open>get_utxo\<close> (inputs and outputs of one
  transaction), and the same row once \<^verbatim>\<open>_cache_utxos\<close> has added its
  \<^verbatim>\<open>time\<close> column.
\<close>

datatype side = Input | Output

record utxo =
  utxo_side :: side
  utxo_address :: string
  utxo_amount :: int
  utxo_hash :: string

record utxo_row =
  row_time :: datetime
  row_utxo :: utxo

section \<open>The cache directory\<close>

text \<open>
  The directory \<^verbatim>\<open>cache_path\<close> of one pool: file names with the rows of each
  file, in creation order.
\<close>

type_synonym 'r directory = "(string \<times> 'r list) list"

datatype 'r fs_op =
    ToFeather string "'r list"
  | Unlink string
  | Rename string string

fun exec_op :: "'r fs_op \<Rightarrow> 'r directory \<Rightarrow> py_error + 'r directory" where
  "exec_op (ToFeather p rows) d = Inr (AList.update p rows d)"
| "exec_op (Unlink p) d =
     (case map_of d p of None \<Rightarrow> Inl FileNotFoundError | Some _ \<Rightarrow> Inr (AList.delete p d))"
| "exec_op (Rename p q) d =
     (case map_of d p of
        None \<Rightarrow> Inl FileNotFoundError
      | Some rows \<Rightarrow> Inr (AList.update q rows (AList.delete p d)))"

fun exec_ops :: "'r fs_op list \<Rightarrow> 'r directory \<Rightarrow> py_error + 'r directory" where
  "exec_ops [] d = Inr d"
| "exec_ops (op # ops) d =
     (case exec_op op d of Inl e \<Rightarrow> Inl e | Inr d' \<Rightarrow> exec_ops ops d')"

subsection \<open>File names\<close>

definition digit :: "nat \<Rightarrow> char" where
  "digit n = ''0123456789'' ! n"

function str_nat :: "nat \<Rightarrow> string" where
  "str_nat n = (if n < 10 then [digit n] else str_nat (n div 10) @ [digit (n mod 10)])"
  by pat_completeness auto
termination
  by (relation "measure id") auto

declare str_nat.simps [simp del]

definition zfill :: "nat \<Rightarrow> string \<Rightarrow> string" where
  "zfill w s = replicate (w - length s) CHR ''0'' @ s"

text \<open>\<^verbatim>\<open>f"{t.year}" + f"{str(t.month).zfill(2)}.arrow"\<close>\<close>

definition cache_name :: "datetime \<Rightarrow> string" where
  "cache_name t = str_nat (year t) @ zfill 2 (str_nat (month t)) @ ''.arrow''"

text \<open>\<^verbatim>\<open>str.replace(old, new)\<close> for a non-empty \<open>old\<close>.\<close>

fun replace :: "string \<Rightarrow> string \<Rightarrow> string \<Rightarrow> string" where
  "replace old new [] = []"
| "replace old new (c # cs) =
     (if old \<noteq> [] \<and> take (length old) (c # cs) = old
      then new @ replace old new (drop (length old - 1) cs)
      else c # replace old new cs)"

text \<open>\<^verbatim>\<open>path.with_name(path.name.replace(".arrow", "_temp.arrow"))\<close>\<close>

definition tmp_name :: "string \<Rightarrow> string" where
  "tmp_name name = replace ''.arrow'' ''_temp.arrow'' name"

subsection \<open>Reading a cache\<close>

definition is_digit :: "char \<Rightarrow> bool" where
  "is_digit c = (c \<in> set ''0123456789'')"

text \<open>The glob \<^verbatim>\<open>[0-9][0-9][0-9][0-9][0-9][0-9].arrow\<close>.\<close>

definition glob_match :: "string \<Rightarrow> bool" where
  "glob_match name = (length name = 12 \<and> list_all is_digit (take 6 name) \<and> drop 6 name = ''.arrow'')"

text \<open>
  \<^verbatim>\<open>vaex.open\<close> of the glob: the matching files in sorted name order as one frame;
  \<^verbatim>\<open>OSError\<close> (caught, giving \<^verbatim>\<open>None\<close>) when no file matches.
\<close>

definition open_cache :: "'r directory \<Rightarrow> 'r list option" where
  "open_cache d =
     (let names = sort (filter glob_match (map fst d))
      in if names = [] then None
         else Some (concat (map (\<lambda>n. case map_of d n of None \<Rightarrow> [] | Some rows \<Rightarrow> rows) names)))"

definition get_transaction_cache ::
  "PoolTransactionReference directory \<Rightarrow> PoolTransactionReference list option" where
  "get_transaction_cache d = open_cache d"

definition get_utxo_cache :: "utxo_row directory \<Rightarrow> utxo_row list option" where
  "get_utxo_cache d = open_cache d"

section \<open>Flushing a month to its partition\<close>

text \<open>
  The \<^verbatim>\<open>for index in range(len - 1)\<close> loop over the months of the buffer:
  \<open>Some i\<close> when it breaks with \<open>index = i\<close>, \<open>None\<close> when it runs to its end.
\<close>

fun first_change :: "nat list \<Rightarrow> nat option" where
  "first_change (a # b # ms) =
     (if a \<noteq> b then Some 1 else map_option Suc (first_change (b # ms)))"
| "first_change ms = None"

text \<open>
  Lines 81-87 and 121-127. The argument is the list of timestamps of a non-empty
  buffer. When the loop ends without a break the loop variable keeps its last
  value, \<open>len - 2\<close>.
\<close>

definition split_index :: "datetime list \<Rightarrow> nat" where
  "split_index ts =
     (if month (hd ts) = month (last ts) then length ts
      else case first_change (map month ts) of Some i \<Rightarrow> i | None \<Rightarrow> length ts - 2)"

text \<open>
  The file operations of the rewrite of an existing partition (lines 107-109
  and 153-155), in the order the code issues them.
\<close>

definition rewrite_ops :: "string \<Rightarrow> 'r list \<Rightarrow> 'r fs_op list" where
  "rewrite_ops name rows = [ToFeather (tmp_name name) rows, Unlink name, Rename (tmp_name name) name]"

text \<open>
  Lines 100-113 and 146-159 (the same code in both functions): the operations
  that merge the frame \<open>df\<close> into the partition \<open>name\<close>. Reading the last time
  of an existing partition with no rows raises.
\<close>

definition merge_ops ::
  "('r \<Rightarrow> datetime) \<Rightarrow> string \<Rightarrow> 'r list \<Rightarrow> 'r directory \<Rightarrow> py_error + 'r fs_op list" where
  "merge_ops time_of name df d =
     (case map_of d name of
        Some cache_df \<Rightarrow>
          if cache_df = [] then Inl IndexError
          else
            let threshold = datetime64 (time_of (last cache_df));
                filtered = filter (\<lambda>r. threshold < datetime64 (time_of r)) df
            in if 0 < length filtered then Inr (rewrite_ops name (cache_df @ filtered))
               else Inr []
      | None \<Rightarrow> Inr [ToFeather name df])"

definition merge_partition ::
  "('r \<Rightarrow> datetime) \<Rightarrow> string \<Rightarrow> 'r list \<Rightarrow> 'r directory \<Rightarrow> py_error + 'r directory" where
  "merge_partition time_of name df d =
     (case merge_ops time_of name df d of Inl e \<Rightarrow> Inl e | Inr ops \<Rightarrow> exec_ops ops d)"

text \<open>
  \<^verbatim>\<open>_cache_transactions\<close> and \<^verbatim>\<open>_cache_utxos\<close> differ only in how a buffer
  entry gives its time (\<open>time_of\<close>) and its rows (\<open>frame\<close>); \<open>row_time\<close> reads the
  time column of a stored row.
\<close>

definition cache_slice ::
  "('a \<Rightarrow> datetime) \<Rightarrow> ('a list \<Rightarrow> 'r list) \<Rightarrow> ('r \<Rightarrow> datetime) \<Rightarrow>
     'a list \<Rightarrow> 'r directory \<Rightarrow> py_error + ('a list \<times> 'r directory)" where
  "cache_slice time_of frame row_time_of buf d =
     (if buf = [] then Inl IndexError
      else
        let index = split_index (map time_of buf);
            df = frame (take index buf);
            name = cache_name (time_of (hd buf))
        in case merge_partition row_time_of name df d of
             Inl e \<Rightarrow> Inl e
           | Inr d' \<Rightarrow> Inr (drop index buf, d'))"

definition p_cache_transactions ::
  "PoolTransactionReference list \<Rightarrow> PoolTransactionReference directory \<Rightarrow>
     py_error + (PoolTransactionReference list \<times> PoolTransactionReference directory)" where
  "p_cache_transactions = cache_slice time (\<lambda>ts. ts) time"

definition add_time :: "(datetime \<times> utxo list) list \<Rightarrow> utxo_row list" where
  "add_time utxos = concat (map (\<lambda>(t, df). map (\<lambda>u. \<lparr>row_time = t, row_utxo = u\<rparr>) df) utxos)"

definition p_cache_utxos ::
  "(datetime \<times> utxo list) list \<Rightarrow> utxo_row directory \<Rightarrow>
     py_error + ((datetime \<times> utxo list) list \<times> utxo_row directory)" where
  "p_cache_utxos = cache_slice fst add_time row_time"

section \<open>The rate limiter\<close>

text \<open>
  The environment of a run: the core count, the two readings of
  \<^verbatim>\<open>datetime.utcnow()\<close> taken by the estimate (lines 259 and 295), the
  successive readings of \<^verbatim>\<open>datetime.now()\<close> taken by the rate limiter, the
  two remote calls, and the floating-point arithmetic of the platform.

  A \<^verbatim>\<open>datetime\<close> and a \<^verbatim>\<open>timedelta\<close> are exact: a clock reading is a
  rational number of seconds on the scale of \<open>datetime64\<close>, and a difference of
  two readings is their difference. A Python \<^verbatim>\<open>float\<close> is the rational number it
  denotes. The operations that produce a float round, and how they round is
  left open: \<^verbatim>\<open>timedelta.total_seconds()\<close> and the float operations \<^verbatim>\<open>+\<close>,
  \<^verbatim>\<open>-\<close>, \<^verbatim>\<open>*\<close>, \<^verbatim>\<open>/\<close> and \<^verbatim>\<open>//\<close> are fields of the environment, so that
  what is proved holds however they round. Comparisons of floats are exact, and
  so is the conversion to float of the integers that occur as operands (list
  lengths, batch sizes and the constants 10 and 100, all far below \<open>2 ^ 53\<close>).
\<close>

record env =
  cpu_count :: nat
  utcnow_start :: rat
  utcnow_estimate :: rat
  clock :: "nat \<Rightarrow> rat"
  get_pool_transaction_history :: "string \<Rightarrow> int \<Rightarrow> PoolTransactionReference list"
  get_utxo :: "string \<Rightarrow> utxo list"
  total_seconds :: "rat \<Rightarrow> rat"
  fl_add :: "rat \<Rightarrow> rat \<Rightarrow> rat"
  fl_sub :: "rat \<Rightarrow> rat \<Rightarrow> rat"
  fl_mul :: "rat \<Rightarrow> rat \<Rightarrow> rat"
  fl_div :: "rat \<Rightarrow> rat \<Rightarrow> rat"
  fl_floordiv :: "rat \<Rightarrow> rat \<Rightarrow> rat"

text \<open>
  The value of \<^verbatim>\<open>calls_allowed\<close>: the \<^verbatim>\<open>int\<close> 500 at first, an \<^verbatim>\<open>int\<close> as long
  as only batch sizes are subtracted from it, a \<^verbatim>\<open>float\<close> once a credit has been
  added. \<open>num_sub\<close> is \<^verbatim>\<open>x - n\<close> for an \<^verbatim>\<open>int\<close> \<open>n\<close>, \<open>num_add\<close> is \<^verbatim>\<open>x + y\<close>
  for a \<^verbatim>\<open>float\<close> \<open>y\<close>, and \<open>num_neg\<close> is \<^verbatim>\<open>x < 0\<close>.
\<close>

datatype py_number = PyInt int | PyFloat rat

definition num_sub :: "env \<Rightarrow> py_number \<Rightarrow> int \<Rightarrow> py_number" where
  "num_sub e x n =
     (case x of PyInt a \<Rightarrow> PyInt (a - n) | PyFloat a \<Rightarrow> PyFloat (fl_sub e a (of_int n)))"

definition num_add :: "env \<Rightarrow> py_number \<Rightarrow> rat \<Rightarrow> py_number" where
  "num_add e x y =
     (case x of PyInt a \<Rightarrow> PyFloat (fl_add e (of_int a) y) | PyFloat a \<Rightarrow> PyFloat (fl_add e a y))"

definition num_neg :: "py_number \<Rightarrow> bool" where
  "num_neg x = (case x of PyInt a \<Rightarrow> a < 0 | PyFloat a \<Rightarrow> a < 0)"

text \<open>
  The limiter's variables: \<^verbatim>\<open>calls_allowed\<close>, \<^verbatim>\<open>call_start\<close>, the number of
  clock readings taken so far, and the delays slept (one warning is logged with
  each).
\<close>

record limiter =
  calls_allowed :: py_number
  call_start :: "rat option"
  readings :: nat
  slept :: "rat list"

definition init_limiter :: limiter where
  "init_limiter = \<lparr>calls_allowed = PyInt 500, call_start = None, readings = 0, slept = []\<rparr>"

text \<open>
  Lines 330-348 and 446-464, for a batch of \<open>n\<close> calls. The credit is
  \<^verbatim>\<open>call_diff.total_seconds() * 10\<close>, a float product. The delay
  \<^verbatim>\<open>5 * call_batch / 10\<close> is the true quotient of two integers, which Python
  rounds correctly; it is half the batch size, which is a float.
\<close>

definition rate_limit :: "env \<Rightarrow> int \<Rightarrow> limiter \<Rightarrow> limiter" where
  "rate_limit e n l =
     (let call_end = clock e (readings l);
          allowed = num_sub e (calls_allowed l) n
      in case call_start l of
           None \<Rightarrow>
             l\<lparr>calls_allowed := allowed,
               call_start := Some (clock e (readings l + 1)),
               readings := readings l + 2\<rparr>
         | Some started \<Rightarrow>
             let allowed = num_add e allowed (fl_mul e (total_seconds e (call_end - started)) 10)
             in if num_neg allowed then
                  let delay_time = of_int (5 * n) / 10
                  in l\<lparr>calls_allowed :=
                         num_add e allowed
                           (fl_mul e (total_seconds e (clock e (readings l + 1) - call_end)) 10),
                       call_start := Some (clock e (readings l + 2)),
                       readings := readings l + 3,
                       slept := slept l @ [delay_time]\<rparr>
                else
                  l\<lparr>calls_allowed := allowed,
                    call_start := Some (clock e (readings l + 1)),
                    readings := readings l + 2\<rparr>)"

section \<open>The flush loop\<close>

lemma first_change_run:
  "\<exists>m \<in> set ms. m \<noteq> hd ms \<Longrightarrow>
     first_change ms = Some (length (takeWhile (\<lambda>m. m = hd ms) ms))"
proof (induction ms rule: first_change.induct)
  case (1 a b ms)
  show ?case
  proof (cases "a = b")
    case True
    with "1.prems" have "\<exists>m \<in> set (b # ms). m \<noteq> hd (b # ms)" by auto
    with "1.IH" True show ?thesis by simp
  next
    case False
    then show ?thesis by simp
  qed
qed auto

lemma split_index_run:
  assumes "ts \<noteq> []" and "month (hd ts) \<noteq> month (last ts)"
  shows "split_index ts = length (takeWhile (\<lambda>t. month t = month (hd ts)) ts)"
proof -
  have "last (map month ts) \<in> set (map month ts)" using assms(1) by (intro last_in_set) simp
  moreover have "last (map month ts) \<noteq> hd (map month ts)"
    using assms by (simp add: last_map hd_map)
  ultimately have "first_change (map month ts)
      = Some (length (takeWhile (\<lambda>m. m = hd (map month ts)) (map month ts)))"
    by (intro first_change_run) blast
  then show ?thesis
    using assms by (simp add: split_index_def takeWhile_map hd_map comp_def)
qed

lemma split_index_pos:
  assumes "ts \<noteq> []" and "month (hd ts) \<noteq> month (last ts)"
  shows "0 < split_index ts"
proof -
  obtain t ts' where ts: "ts = t # ts'" using assms(1) by (cases ts) auto
  show ?thesis unfolding split_index_run [OF assms] by (simp add: ts)
qed

lemma cache_slice_shorter:
  assumes "buf \<noteq> []" and "month (time_of (hd buf)) \<noteq> month (time_of (last buf))"
    and "cache_slice time_of frame row_time_of buf d = Inr (buf', d')"
  shows "length buf' < length buf"
proof -
  have "0 < split_index (map time_of buf)"
    using assms(1,2) by (intro split_index_pos) (simp_all add: hd_map last_map)
  moreover have "buf' = drop (split_index (map time_of buf)) buf"
    using assms(1,3) by (auto simp: cache_slice_def Let_def split: sum.splits)
  ultimately show ?thesis using assms(1) by simp
qed

text \<open>
  Lines 364-373 and 476-485: while the buffer is non-empty and its first and
  last entries differ in \<^verbatim>\<open>.month\<close>, flush and keep what the flush returns.
\<close>

function flush_while ::
  "('a \<Rightarrow> datetime) \<Rightarrow> ('a list \<Rightarrow> 'r list) \<Rightarrow> ('r \<Rightarrow> datetime) \<Rightarrow>
     'a list \<Rightarrow> 'r directory \<Rightarrow> py_error + ('a list \<times> 'r directory)" where
  "flush_while time_of frame row_time_of buf d =
     (if 0 < length buf \<and> month (time_of (hd buf)) \<noteq> month (time_of (last buf))
      then case cache_slice time_of frame row_time_of buf d of
             Inl e \<Rightarrow> Inl e
           | Inr (buf', d') \<Rightarrow> flush_while time_of frame row_time_of buf' d'
      else Inr (buf, d))"
  by pat_completeness auto
termination
proof (relation "measure (\<lambda>(time_of, frame, row_time_of, buf, d). length buf)", goal_cases)
  case 1
  show ?case by simp
next
  case (2 time_of frame row_time_of buf d x2 x y)
  then have "length x < length buf"
    using cache_slice_shorter [of buf time_of frame row_time_of d x y] by auto
  then show ?case by simp
qed

declare flush_while.simps [simp del]

section \<open>The reference flow\<close>

text \<open>
  Lines 264-304: the starting page and the batch size, from the cache when there
  is one. The times of the cache are whole seconds; \<^verbatim>\<open>now\<close> and the second
  reading of \<^verbatim>\<open>utcnow()\<close> are exact datetimes. \<^verbatim>\<open>time_period\<close>, \<^verbatim>\<open>tps\<close> and
  \<^verbatim>\<open>time_delta\<close> are floats, \<^verbatim>\<open>time_delta * tps // 100\<close> is a float product
  followed by a float floor division, and \<^verbatim>\<open>int\<close> truncates its value towards
  zero.
\<close>

definition py_int :: "rat \<Rightarrow> int" where
  "py_int x = (if 0 \<le> x then \<lfloor>x\<rfloor> else \<lceil>x\<rceil>)"

definition resume_estimate :: "env \<Rightarrow> PoolTransactionReference list option \<Rightarrow> int \<times> int" where
  "resume_estimate e cache =
     (case cache of
        Some c \<Rightarrow>
          let page = int (length c) div 100 + 1;
              last_month = utcnow_start e - 30 * 86400;
              filtered = filter (\<lambda>r. last_month < of_int (datetime64 (time r))) c;
              filtered = (if length filtered \<le> 1 then c else filtered);
              call_batch =
                (if length filtered \<le> 1 then 1
                 else
                   let time_period =
                         total_seconds e
                           (of_int (datetime64 (time (last filtered)) - datetime64 (time (hd filtered))));
                       n_transactions = int (length filtered)
                   in if time_period = 0 then 1
                      else
                        let tps = fl_div e (of_int n_transactions) time_period;
                            time_delta =
                              total_seconds e
                                (utcnow_estimate e - of_int (datetime64 (time (last filtered))))
                        in min (int (cpu_count e))
                             (py_int (fl_floordiv e (fl_mul e time_delta tps) 100)))
          in (page, call_batch)
      | None \<Rightarrow> (1, int (cpu_count e)))"

text \<open>
  The variables of the fetch loop, with the pages requested from the provider so
  far (every page of a batch is submitted by \<^verbatim>\<open>executor.map\<close>).
\<close>

record ref_state =
  page :: int
  call_batch :: int
  num_calls :: int
  is_done :: bool
  transactions :: "PoolTransactionReference list"
  cache_path :: "PoolTransactionReference directory"
  limit :: limiter
  requested :: "int list"

text \<open>Lines 354-361: the results of a batch, in page order.\<close>

fun collect_pages ::
  "PoolTransactionReference list list \<Rightarrow> bool \<times> PoolTransactionReference list \<Rightarrow>
     bool \<times> PoolTransactionReference list" where
  "collect_pages [] acc = acc"
| "collect_pages (thread # threads) (dn, ts) =
     (if length thread \<noteq> 100
      then if length thread = 0 then (True, ts) else collect_pages threads (True, ts @ thread)
      else collect_pages threads (dn, ts @ thread))"

text \<open>
  Lines 325-374, one iteration of the loop. A raise comes with the pages
  requested up to it.
\<close>

definition fetch_batch ::
  "env \<Rightarrow> string \<Rightarrow> int \<Rightarrow> ref_state \<Rightarrow> py_error \<times> int list + ref_state" where
  "fetch_batch e pool_id max_calls s =
     (let batch = (if max_calls < num_calls s + call_batch s then max_calls - num_calls s
                   else call_batch s);
          pages = [page s .. page s + batch - 1];
          threads = map (get_pool_transaction_history e pool_id) pages;
          (dn, ts) = collect_pages threads (is_done s, transactions s)
      in case flush_while time (\<lambda>ts. ts) time ts (cache_path s) of
           Inl err \<Rightarrow> Inl (err, requested s @ pages)
         | Inr (ts', d') \<Rightarrow>
             Inr (s\<lparr>page := page s + batch,
                    call_batch := batch,
                    num_calls := num_calls s + batch,
                    is_done := dn,
                    transactions := ts',
                    cache_path := d',
                    limit := rate_limit e batch (limit s),
                    requested := requested s @ pages\<rparr>))"

text \<open>Line 324: \<^verbatim>\<open>while not done and num_calls < max_calls\<close>.\<close>

partial_function (option) fetch_loop ::
  "env \<Rightarrow> string \<Rightarrow> int \<Rightarrow> ref_state \<Rightarrow> (py_error \<times> int list + ref_state) option" where
  "fetch_loop e pool_id max_calls s =
     (if \<not> is_done s \<and> num_calls s < max_calls
      then case fetch_batch e pool_id max_calls s of
             Inl err \<Rightarrow> Some (Inl err)
           | Inr s' \<Rightarrow> fetch_loop e pool_id max_calls s'
      else Some (Inr s))"

declare fetch_loop.simps [code]

text \<open>
  \<^verbatim>\<open>cache_transactions(pool_id, max_calls)\<close> on the directory \<open>d\<close> of the pool.
  \<^verbatim>\<open>ThreadPoolExecutor(call_batch)\<close> raises \<^verbatim>\<open>ValueError\<close> unless
  \<open>0 < call_batch\<close>. The result is the returned \<^verbatim>\<open>num_calls\<close> with the final
  state; \<open>None\<close> stands for a loop that does not end. \<open>finish_transactions\<close> is
  lines 376-384, the last flush and the return.
\<close>

definition finish_transactions :: "ref_state \<Rightarrow> py_error \<times> int list + int \<times> ref_state" where
  "finish_transactions s =
     (if 0 < length (transactions s)
      then case p_cache_transactions (transactions s) (cache_path s) of
             Inl err \<Rightarrow> Inl (err, requested s)
           | Inr (rest, d') \<Rightarrow> Inr (num_calls s, s\<lparr>cache_path := d'\<rparr>)
      else Inr (num_calls s, s))"

definition ref_start :: "int \<Rightarrow> int \<Rightarrow> PoolTransactionReference directory \<Rightarrow> ref_state" where
  "ref_start page0 batch d =
     \<lparr>page = page0, call_batch = batch, num_calls = 0, is_done = False,
      transactions = [], cache_path = d, limit = init_limiter, requested = []\<rparr>"

definition cache_transactions ::
  "env \<Rightarrow> string \<Rightarrow> int \<Rightarrow> PoolTransactionReference directory \<Rightarrow>
     (py_error \<times> int list + int \<times> ref_state) option" where
  "cache_transactions e pool_id max_calls d =
     (let (page0, batch0) = resume_estimate e (get_transaction_cache d);
          batch1 = (if batch0 = 0 then 1 else batch0)
      in if batch1 \<le> 0 then Some (Inl (ValueError, []))
         else
           case fetch_loop e pool_id max_calls (ref_start page0 batch1 d) of
             None \<Rightarrow> None
           | Some (Inl err) \<Rightarrow> Some (Inl err)
           | Some (Inr s) \<Rightarrow> Some (finish_transactions s))"

section \<open>The detail flow\<close>

text \<open>\<^verbatim>\<open>range(0, stop, step)\<close>; a zero step raises \<^verbatim>\<open>ValueError\<close>.\<close>

definition py_range :: "int \<Rightarrow> int \<Rightarrow> py_error + int list" where
  "py_range stop step =
     (if step = 0 then Inl ValueError
      else if 0 < step then Inr (map (\<lambda>i. int i * step) [0 ..< nat ((stop + step - 1) div step)])
      else Inr (map (\<lambda>i. int i * step) [0 ..< nat ((stop + step + 1) div step)]))"

record utxo_state =
  batch_size :: int
  utxo_calls :: int
  tx_utxos :: "(datetime \<times> utxo list) list"
  utxo_path :: "utxo_row directory"
  utxo_limit :: limiter
  requested_hashes :: "string list"

text \<open>Lines 440-485, the body of the \<^verbatim>\<open>for bs in range(...)\<close> loop.\<close>

definition utxo_batch ::
  "env \<Rightarrow> PoolTransactionReference list \<Rightarrow> int \<Rightarrow> utxo_state \<Rightarrow> int \<Rightarrow>
     py_error \<times> string list + utxo_state" where
  "utxo_batch e cache last_index s bs =
     (let be = min (bs + batch_size s) last_index;
          batch = be - bs;
          rows = take (nat (be - bs)) (drop (nat bs) cache);
          hashes = map tx_hash rows;
          fetched = zip (map time rows) (map (get_utxo e) hashes)
      in case flush_while fst add_time row_time (tx_utxos s @ fetched) (utxo_path s) of
           Inl err \<Rightarrow> Inl (err, requested_hashes s @ hashes)
         | Inr (buf', d') \<Rightarrow>
             Inr (s\<lparr>batch_size := batch,
                    utxo_calls := utxo_calls s + batch,
                    tx_utxos := buf',
                    utxo_path := d',
                    utxo_limit := rate_limit e batch (utxo_limit s),
                    requested_hashes := requested_hashes s @ hashes\<rparr>))"

fun utxo_loop ::
  "env \<Rightarrow> PoolTransactionReference list \<Rightarrow> int \<Rightarrow> int list \<Rightarrow> utxo_state \<Rightarrow>
     py_error \<times> string list + utxo_state" where
  "utxo_loop e cache last_index [] s = Inr s"
| "utxo_loop e cache last_index (bs # rest) s =
     (case utxo_batch e cache last_index s bs of
        Inl err \<Rightarrow> Inl err
      | Inr s' \<Rightarrow> utxo_loop e cache last_index rest s')"

definition utxo_start :: "env \<Rightarrow> utxo_row directory \<Rightarrow> utxo_state" where
  "utxo_start e d =
     \<lparr>batch_size = int (cpu_count e), utxo_calls = 0, tx_utxos = [], utxo_path = d,
      utxo_limit = init_limiter, requested_hashes = []\<rparr>"

text \<open>
  Lines 419-425: the transactions newer than the last cached utxo; reading the
  last time of a utxo cache with no rows raises.
\<close>

definition uncached ::
  "PoolTransactionReference list \<Rightarrow> utxo_row directory \<Rightarrow>
     py_error + PoolTransactionReference list" where
  "uncached cache ud =
     (case get_utxo_cache ud of
        None \<Rightarrow> Inr cache
      | Some utxo_cache \<Rightarrow>
          if utxo_cache = [] then Inl IndexError
          else Inr (filter (\<lambda>r. datetime64 (row_time (last utxo_cache)) < datetime64 (time r)) cache))"

text \<open>Lines 487-495: the last flush and the return.\<close>

definition finish_utxos :: "utxo_state \<Rightarrow> py_error \<times> string list + int \<times> utxo_state" where
  "finish_utxos s =
     (if 0 < length (tx_utxos s)
      then case p_cache_utxos (tx_utxos s) (utxo_path s) of
             Inl err \<Rightarrow> Inl (err, requested_hashes s)
           | Inr (rest, d') \<Rightarrow> Inr (utxo_calls s, s\<lparr>utxo_path := d'\<rparr>)
      else Inr (utxo_calls s, s))"

text \<open>Lines 429-495, on the transactions still to fetch.\<close>

definition fetch_utxos ::
  "env \<Rightarrow> int \<Rightarrow> PoolTransactionReference list \<Rightarrow> utxo_row directory \<Rightarrow>
     py_error \<times> string list + int \<times> utxo_state" where
  "fetch_utxos e max_calls cache ud =
     (let last_index = min max_calls (int (length cache))
      in case py_range last_index (int (cpu_count e)) of
           Inl err \<Rightarrow> Inl (err, [])
         | Inr starts \<Rightarrow>
             (case utxo_loop e cache last_index starts (utxo_start e ud) of
                Inl err \<Rightarrow> Inl err
              | Inr s \<Rightarrow> finish_utxos s))"

text \<open>
  \<^verbatim>\<open>cache_utxos(pool_id, max_calls)\<close> on the two directories of the pool: the
  reference cache \<open>td\<close>, which it reads, and the utxo cache \<open>ud\<close>. The result is
  the returned \<^verbatim>\<open>num_calls\<close> with the final state.
\<close>

definition cache_utxos ::
  "env \<Rightarrow> int \<Rightarrow> PoolTransactionReference directory \<Rightarrow> utxo_row directory \<Rightarrow>
     py_error \<times> string list + int \<times> utxo_state" where
  "cache_utxos e max_calls td ud =
     (case get_transaction_cache td of
        None \<Rightarrow> Inr (0, utxo_start e ud)
      | Some cache \<Rightarrow>
          (case uncached cache ud of
             Inl err \<Rightarrow> Inl (err, [])
           | Inr cache' \<Rightarrow> fetch_utxos e max_calls cache' ud))"

section \<open>Example data\<close>

definition mk_datetime :: "nat \<Rightarrow> nat \<Rightarrow> nat \<Rightarrow> nat \<Rightarrow> datetime" where
  "mk_datetime y m d s = \<lparr>year = y, month = m, day = d, hour = 0, minute = 0, second = s\<rparr>"

definition mk_reference :: "nat \<Rightarrow> datetime \<Rightarrow> PoolTransactionReference" where
  "mk_reference i t = \<lparr>tx_hash = str_nat i, tx_index = 0, block_height = int i, time = t\<rparr>"

text \<open>A provider serving the records \<open>recs\<close> in pages of 100, from page 1.\<close>

definition paged :: "PoolTransactionReference list \<Rightarrow> string \<Rightarrow> int \<Rightarrow> PoolTransactionReference list" where
  "paged recs pool_id p = (if p < 1 then [] else take 100 (drop (100 * nat (p - 1)) recs))"

text \<open>
  An environment whose arithmetic is exact: it rounds nothing. The float
  operations of Python agree with it wherever the exact result is a float, as it
  is in the runs evaluated below (small integers and halves).
\<close>

definition example_env :: "nat \<Rightarrow> PoolTransactionReference list \<Rightarrow> env" where
  "example_env cpus recs =
     \<lparr>cpu_count = cpus, utcnow_start = 0, utcnow_estimate = 0, clock = (\<lambda>i. of_nat i),
      get_pool_transaction_history = paged recs,
      get_utxo = (\<lambda>h. [\<lparr>utxo_side = Input, utxo_address = ''a'', utxo_amount = 1, utxo_hash = h\<rparr>,
                        \<lparr>utxo_side = Output, utxo_address = ''b'', utxo_amount = 1, utxo_hash = h\<rparr>]),
      total_seconds = (\<lambda>x. x),
      fl_add = (\<lambda>x y. x + y), fl_sub = (\<lambda>x y. x - y), fl_mul = (\<lambda>x y. x * y),
      fl_div = (\<lambda>x y. x / y), fl_floordiv = (\<lambda>x y. of_int \<lfloor>x / y\<rfloor>)\<rparr>"

section \<open>The detail flow without a reference cache\<close>

text \<open>
  C9. Without a reference cache \<open>cache_utxos\<close> returns 0: no hash was requested
  from the provider and the utxo directory is the one it was given.
\<close>

theorem cache_utxos_without_cache:
  "get_transaction_cache td = None \<Longrightarrow>
     cache_utxos e k td ud = Inr (0, utxo_start e ud) \<and>
     requested_hashes (utxo_start e ud) = [] \<and>
     utxo_path (utxo_start e ud) = ud"
  by (simp add: cache_utxos_def utxo_start_def)

theorem cache_utxos_without_cache_witness:
  "get_transaction_cache [] = None \<and>
   cache_utxos (example_env 4 []) 1000 [] [] = Inr (0, utxo_start (example_env 4 []) []) \<and>
   requested_hashes (utxo_start (example_env 4 []) []) = [] \<and>
   utxo_path (utxo_start (example_env 4 []) []) = []"
proof -
  have none: "get_transaction_cache [] = None"
    by code_simp
  from cache_utxos_without_cache [OF none, of "example_env 4 []" 1000 "[]"] none
  show ?thesis by simp
qed

section \<open>Facts about file names\<close>

lemma is_digit_digit: "n < 10 \<Longrightarrow> is_digit (digit n)"
proof -
  assume "n < 10"
  then have "n \<in> {0,1,2,3,4,5,6,7,8,9}" by auto
  then show ?thesis by (auto simp: is_digit_def digit_def)
qed

lemma str_nat_digits: "list_all is_digit (str_nat n)"
proof (induction n rule: str_nat.induct)
  case (1 n)
  show ?case
  proof (cases "n < 10")
    case True
    then show ?thesis by (subst str_nat.simps) (simp add: is_digit_digit)
  next
    case False
    with 1 show ?thesis by (subst str_nat.simps) (simp add: is_digit_digit)
  qed
qed

lemma zfill_digits: "list_all is_digit s \<Longrightarrow> list_all is_digit (zfill w s)"
proof -
  assume s: "list_all is_digit s"
  have "is_digit CHR ''0''" by (simp add: is_digit_def)
  then have "list_all is_digit (replicate (w - length s) CHR ''0'')"
    by (simp add: list_all_iff)
  with s show ?thesis by (simp add: zfill_def)
qed

definition stem :: "datetime \<Rightarrow> string" where
  "stem t = str_nat (year t) @ zfill 2 (str_nat (month t))"

lemma stem_digits: "list_all is_digit (stem t)"
  by (simp add: stem_def str_nat_digits zfill_digits)

lemma cache_name_stem: "cache_name t = stem t @ ''.arrow''"
  by (simp add: cache_name_def stem_def)

lemma replace_stem:
  "list_all is_digit ds \<Longrightarrow> replace ''.arrow'' new (ds @ ''.arrow'') = ds @ new"
proof (induction ds)
  case Nil
  show ?case by simp
next
  case (Cons c ds)
  then have "c \<noteq> CHR ''.''" by (auto simp: is_digit_def)
  with Cons show ?case by simp
qed

lemma tmp_name_cache_name: "tmp_name (cache_name t) = stem t @ ''_temp.arrow''"
  by (simp add: tmp_name_def cache_name_stem replace_stem stem_digits)

lemma tmp_name_neq: "tmp_name (cache_name t) \<noteq> cache_name t"
proof
  assume "tmp_name (cache_name t) = cache_name t"
  then have "stem t @ ''_temp.arrow'' = cache_name t"
    by (simp only: tmp_name_cache_name)
  then have "stem t @ ''_temp.arrow'' = stem t @ ''.arrow''"
    by (simp only: cache_name_stem)
  then show False by simp
qed

section \<open>Merging into an existing partition\<close>

text \<open>
  What a crash can leave on disk while a list of file operations runs: the
  directory before each operation, after the last one, and, while a file is
  being written, the directory with a proper prefix of the rows in that file.
  Unlinking and renaming are single system calls.
\<close>

fun torn_writes :: "'r fs_op \<Rightarrow> 'r directory \<Rightarrow> 'r directory list" where
  "torn_writes (ToFeather p rows) d = map (\<lambda>j. AList.update p (take j rows) d) [0 ..< length rows]"
| "torn_writes (Unlink p) d = []"
| "torn_writes (Rename p q) d = []"

fun crash_states :: "'r fs_op list \<Rightarrow> 'r directory \<Rightarrow> 'r directory list" where
  "crash_states [] d = [d]"
| "crash_states (op # ops) d =
     d # torn_writes op d @ (case exec_op op d of Inl e \<Rightarrow> [] | Inr d' \<Rightarrow> crash_states ops d')"

definition jan5 :: PoolTransactionReference where
  "jan5 = mk_reference 1 (mk_datetime 2023 1 5 0)"

definition jan9 :: PoolTransactionReference where
  "jan9 = mk_reference 2 (mk_datetime 2023 1 9 0)"

definition jun1 :: PoolTransactionReference where
  "jun1 = mk_reference 3 (mk_datetime 2023 6 1 0)"


lemma exec_rewrite:
  assumes "map_of d name = Some old" and "tmp_name name \<noteq> name"
  shows "exec_ops (rewrite_ops name new) d
           = Inr (AList.update name new (AList.delete (tmp_name name)
                    (AList.delete name (AList.update (tmp_name name) new d))))"
  using assms by (simp add: rewrite_ops_def update_conv' delete_conv')

lemma crash_rewrite:
  assumes "map_of d name = Some old" and "tmp_name name \<noteq> name"
    and "c \<in> set (crash_states (rewrite_ops name new) d)"
  shows "map_of c name = Some old \<or> map_of c name = Some new \<or>
         (map_of c name = None \<and> map_of c (tmp_name name) = Some new)"
  using assms by (auto simp add: rewrite_ops_def update_conv' delete_conv')

text \<open>
  C3, as amended. Merging the frame \<open>df\<close> into an existing partition keeps the
  rows strictly newer than the partition's last time; nothing is written when
  none is kept, and otherwise the partition becomes the old rows followed by
  the kept ones, written to the temporary file, which replaces the partition by
  an unlink and a rename. At every point of the rewrite, also in the middle of
  the write, the partition path holds the complete old rows, the complete new
  rows, or (between the unlink and the rename) no file while the temporary
  file holds the complete new rows: it never holds a half-written file.
\<close>

theorem merge_existing_partition:
  assumes "map_of d (cache_name t) = Some old" and "old \<noteq> []"
  shows "let name = cache_name t;
             kept = filter (\<lambda>r. datetime64 (time_of (last old)) < datetime64 (time_of r)) df;
             new = old @ kept
         in (kept = [] \<longrightarrow>
               merge_ops time_of name df d = Inr [] \<and> merge_partition time_of name df d = Inr d) \<and>
            (kept \<noteq> [] \<longrightarrow>
               merge_ops time_of name df d = Inr (rewrite_ops name new) \<and>
               (case merge_partition time_of name df d of
                  Inl err \<Rightarrow> False
                | Inr d' \<Rightarrow> map_of d' = (map_of d)(tmp_name name := None, name \<mapsto> new))) \<and>
            (\<forall>c \<in> set (crash_states (rewrite_ops name new) d).
               map_of c name = Some old \<or> map_of c name = Some new \<or>
               (map_of c name = None \<and> map_of c (tmp_name name) = Some new))"
proof -
  let ?name = "cache_name t"
  let ?kept = "filter (\<lambda>r. datetime64 (time_of (last old)) < datetime64 (time_of r)) df"
  note neq = tmp_name_neq [of t]
  have a: "?kept = [] \<Longrightarrow> merge_ops time_of ?name df d = Inr []"
    using assms by (simp add: merge_ops_def)
  have b: "?kept \<noteq> [] \<Longrightarrow> merge_ops time_of ?name df d = Inr (rewrite_ops ?name (old @ ?kept))"
    using assms by (simp add: merge_ops_def Let_def)
  have c: "?kept \<noteq> [] \<Longrightarrow>
      (case merge_partition time_of ?name df d of
         Inl err \<Rightarrow> False
       | Inr d' \<Rightarrow> map_of d' = (map_of d)(tmp_name ?name := None, ?name \<mapsto> old @ ?kept))"
    using neq by (simp add: merge_partition_def b exec_rewrite [OF assms(1) neq] update_conv' delete_conv')
  show ?thesis
    using a b c crash_rewrite [OF assms(1) neq]
    by (simp add: Let_def merge_partition_def)
qed

theorem merge_existing_partition_witness:
  "map_of [(''202301.arrow'', [jan5])] (cache_name (time jan9)) = Some [jan5] \<and>
   merge_ops time (cache_name (time jan9)) [jan5, jan9] [(''202301.arrow'', [jan5])]
     = Inr (rewrite_ops (cache_name (time jan9)) [jan5, jan9]) \<and>
   merge_partition time (cache_name (time jan9)) [jan5, jan9] [(''202301.arrow'', [jan5])]
     = Inr [(''202301.arrow'', [jan5, jan9])]"
proof -
  let ?d = "[(''202301.arrow'', [jan5])]"
  have h: "map_of ?d (cache_name (time jan9)) = Some [jan5]" by code_simp
  have k: "filter (\<lambda>r. datetime64 (time (last [jan5])) < datetime64 (time r)) [jan5, jan9] = [jan9]"
    by code_simp
  have m: "merge_partition time (cache_name (time jan9)) [jan5, jan9] ?d = Inr [(''202301.arrow'', [jan5, jan9])]"
    by code_simp
  from merge_existing_partition [OF h, of time "[jan5, jan9]"] k
  have "merge_ops time (cache_name (time jan9)) [jan5, jan9] ?d
     = Inr (rewrite_ops (cache_name (time jan9)) [jan5, jan9])"
    by (simp add: Let_def)
  with h m show ?thesis by simp
qed

text \<open>
  The claim as first stated fails between the unlink and the rename: the
  partition path then holds neither the old nor the new rows.
\<close>

theorem rewrite_window_counterexample:
  "merge_ops time ''202301.arrow'' [jan5, jan9] [(''202301.arrow'', [jan5])]
     = Inr (rewrite_ops ''202301.arrow'' [jan5, jan9]) \<and>
   \<not> (\<forall>c \<in> set (crash_states (rewrite_ops ''202301.arrow'' [jan5, jan9]) [(''202301.arrow'', [jan5])]).
         map_of c ''202301.arrow'' = Some [jan5] \<or> map_of c ''202301.arrow'' = Some [jan5, jan9])"
  by code_simp

section \<open>The month test reads no year\<close>

lemma cache_slice_whole:
  assumes "buf \<noteq> []" and "month (time_of (hd buf)) = month (time_of (last buf))"
  shows "cache_slice time_of frame row_time_of buf d
           = map_sum id (Pair []) (merge_partition row_time_of (cache_name (time_of (hd buf))) (frame buf) d)"
  using assms by (simp add: cache_slice_def split_index_def hd_map last_map Let_def split: sum.splits)

lemma merge_fresh:
  "map_of d name = None \<Longrightarrow> merge_partition time_of name df d = Inr (AList.update name df d)"
  by (simp add: merge_partition_def merge_ops_def)



section \<open>The batch size of a resumed run\<close>

text \<open>
  A clock that reads three seconds less than the time of the last cached
  record, and a cache of two records one second apart.
\<close>

definition skewed_env :: env where
  "skewed_env = (example_env 4 [])\<lparr>utcnow_start := 63808560001 - 3, utcnow_estimate := 63808560001 - 3\<rparr>"

definition same_second_cache :: "PoolTransactionReference directory" where
  "same_second_cache = [(''202301.arrow'', [mk_reference 1 (mk_datetime 2023 1 5 0), mk_reference 2 (mk_datetime 2023 1 5 1)])]"

text \<open>
  C7. The estimate is \<open>min(cpu_count, floor(time_delta * tps / 100))\<close>, and line
  306 replaces only the value 0 by 1. Here \<open>time_delta\<close> is negative, the batch
  size is -1, and \<^verbatim>\<open>ThreadPoolExecutor(call_batch)\<close> raises before any call is
  made: the batch size is not at least 1.
\<close>

theorem negative_batch_raises:
  "of_int (datetime64 (mk_datetime 2023 1 5 1)) - utcnow_estimate skewed_env = 3 \<and>
   resume_estimate skewed_env (get_transaction_cache same_second_cache) = (1, -1) \<and>
   cache_transactions skewed_env ''pool1'' 1000 same_second_cache = Some (Inl (ValueError, []))"
  by code_simp

section \<open>The call budget\<close>

lemma fetch_batch_budget:
  assumes "num_calls s < k" and "1 \<le> call_batch s" and "0 \<le> num_calls s"
    and "int (length (requested s)) = num_calls s"
  shows "case fetch_batch e p k s of
           Inl (err, reqs) \<Rightarrow> int (length reqs) \<le> k
         | Inr s' \<Rightarrow> 1 \<le> call_batch s' \<and> num_calls s < num_calls s' \<and> num_calls s' \<le> k \<and>
                     int (length (requested s')) = num_calls s'"
  using assms
  by (auto simp add: fetch_batch_def Let_def split: sum.splits prod.splits)

lemma fetch_loop_budget:
  assumes "1 \<le> call_batch s" and "0 \<le> num_calls s" and "num_calls s \<le> k"
    and "int (length (requested s)) = num_calls s"
  shows "\<exists>r. fetch_loop e p k s = Some r \<and>
           (case r of
              Inl (err, reqs) \<Rightarrow> int (length reqs) \<le> k
            | Inr s' \<Rightarrow> num_calls s' \<le> k \<and> int (length (requested s')) = num_calls s')"
  using assms
proof (induction "nat (k - num_calls s)" arbitrary: s rule: less_induct)
  case less
  show ?case
  proof (cases "\<not> is_done s \<and> num_calls s < k")
    case False
    then show ?thesis using less.prems by (subst fetch_loop.simps) auto
  next
    case True
    then have lt: "num_calls s < k" by simp
    note b = fetch_batch_budget [OF lt less.prems(1,2,4), of e p]
    show ?thesis
    proof (cases "fetch_batch e p k s")
      case (Inl a)
      with b True show ?thesis by (subst fetch_loop.simps) (auto split: prod.splits)
    next
      case (Inr s')
      with b have s': "1 \<le> call_batch s'" "num_calls s < num_calls s'" "num_calls s' \<le> k"
        "int (length (requested s')) = num_calls s'" by auto
      then have "nat (k - num_calls s') < nat (k - num_calls s)" using lt by linarith
      from less.hyps [OF this s'(1) _ s'(3,4)] s'(2) less.prems(2)
      have "\<exists>r. fetch_loop e p k s' = Some r \<and>
           (case r of
              Inl (err, reqs) \<Rightarrow> int (length reqs) \<le> k
            | Inr s' \<Rightarrow> num_calls s' \<le> k \<and> int (length (requested s')) = num_calls s')"
        by simp
      with Inr True show ?thesis by (subst fetch_loop.simps) simp
    qed
  qed
qed


lemma finish_transactions_budget:
  assumes "num_calls s \<le> k" and "int (length (requested s)) = num_calls s"
  shows "case finish_transactions s of
           Inl (err, reqs) \<Rightarrow> int (length reqs) \<le> k
         | Inr (n, s') \<Rightarrow> n \<le> k \<and> int (length (requested s')) = n"
  using assms by (auto simp add: finish_transactions_def split: sum.splits)

lemma cache_transactions_budget:
  assumes "1 \<le> k"
  shows "\<exists>r. cache_transactions e pool_id k d = Some r \<and>
           (case r of
              Inl (err, reqs) \<Rightarrow> int (length reqs) \<le> k
            | Inr (n, s) \<Rightarrow> n \<le> k \<and> int (length (requested s)) = n)"
proof -
  obtain page0 batch0 where est: "resume_estimate e (get_transaction_cache d) = (page0, batch0)"
    by (cases "resume_estimate e (get_transaction_cache d)")
  define batch1 where "batch1 = (if batch0 = 0 then 1 else batch0)"
  show ?thesis
  proof (cases "batch1 \<le> 0")
    case True
    then show ?thesis using assms est by (simp add: cache_transactions_def batch1_def)
  next
    case False
    then have "1 \<le> call_batch (ref_start page0 batch1 d)" by (simp add: ref_start_def)
    from fetch_loop_budget [OF this, of k e pool_id] assms
    obtain r where r: "fetch_loop e pool_id k (ref_start page0 batch1 d) = Some r"
      and b: "case r of Inl (err, reqs) \<Rightarrow> int (length reqs) \<le> k
              | Inr s' \<Rightarrow> num_calls s' \<le> k \<and> int (length (requested s')) = num_calls s'"
      by (auto simp add: ref_start_def)
    show ?thesis
    proof (cases r)
      case (Inl a)
      with r b False est show ?thesis
        by (simp add: cache_transactions_def batch1_def [symmetric])
    next
      case (Inr s')
      with b have "num_calls s' \<le> k" "int (length (requested s')) = num_calls s'" by auto
      from finish_transactions_budget [OF this] r Inr False est show ?thesis
        by (simp add: cache_transactions_def batch1_def [symmetric])
    qed
  qed
qed

lemma fetch_batch_sized_down:
  assumes "k < num_calls s + call_batch s" and "fetch_batch e pool_id k s = Inr s'"
  shows "call_batch s' = k - num_calls s \<and> num_calls s' = k \<and>
         requested s' = requested s @ [page s .. page s + (k - num_calls s) - 1]"
  using assms by (auto simp add: fetch_batch_def Let_def split: sum.splits prod.splits)

lemma utxo_batch_budget:
  assumes "bs < li" and "li \<le> int (length cache)" and "0 \<le> bs"
    and "0 \<le> batch_size s" and "batch_size s \<le> c"
    and "0 \<le> utxo_calls s" and "utxo_calls s \<le> bs"
    and "int (length (requested_hashes s)) = utxo_calls s"
  shows "case utxo_batch e cache li s bs of
           Inl (err, reqs) \<Rightarrow> int (length reqs) \<le> li
         | Inr s' \<Rightarrow> 0 \<le> batch_size s' \<and> batch_size s' \<le> c \<and> 0 \<le> utxo_calls s' \<and>
                     utxo_calls s' \<le> bs + c \<and> utxo_calls s' \<le> li \<and>
                     int (length (requested_hashes s')) = utxo_calls s'"
  using assms
  by (auto simp add: utxo_batch_def Let_def min_def split: sum.splits prod.splits)

lemma utxo_loop_budget:
  assumes "0 < c" and "li \<le> int (length cache)" and "\<forall>i<m. int i * c < li"
  shows "j \<le> m \<Longrightarrow> 0 \<le> batch_size s \<Longrightarrow> batch_size s \<le> c \<Longrightarrow> 0 \<le> utxo_calls s \<Longrightarrow>
         utxo_calls s \<le> int j * c \<Longrightarrow> utxo_calls s \<le> li \<Longrightarrow>
         int (length (requested_hashes s)) = utxo_calls s \<Longrightarrow>
         (case utxo_loop e cache li (map (\<lambda>i. int i * c) [j ..< m]) s of
            Inl (err, reqs) \<Rightarrow> int (length reqs) \<le> li
          | Inr s' \<Rightarrow> 0 \<le> utxo_calls s' \<and> utxo_calls s' \<le> li \<and>
                      int (length (requested_hashes s')) = utxo_calls s')"
proof (induction "m - j" arbitrary: j s)
  case 0
  then show ?case by simp
next
  case (Suc n)
  then have jm: "j < m" by simp
  then have lt: "int j * c < li" using assms(3) by simp
  have pos: "0 \<le> int j * c" using assms(1) by simp
  note b = utxo_batch_budget [OF lt assms(2) pos Suc.prems(2,3,4,5,7), of e]
  have up: "[j ..< m] = j # [Suc j ..< m]" using jm by (simp add: upt_conv_Cons)
  show ?case
  proof (cases "utxo_batch e cache li s (int j * c)")
    case (Inl a)
    with b show ?thesis by (simp add: up)
  next
    case (Inr s')
    with b have s': "0 \<le> batch_size s'" "batch_size s' \<le> c" "0 \<le> utxo_calls s'"
      "utxo_calls s' \<le> int j * c + c" "utxo_calls s' \<le> li"
      "int (length (requested_hashes s')) = utxo_calls s'" by auto
    have n: "n = m - Suc j" using Suc.hyps(2) by simp
    have "utxo_calls s' \<le> int (Suc j) * c" using s'(4) by (simp add: algebra_simps)
    from Suc.hyps(1) [OF n _ s'(1,2,3) this s'(5,6)] jm Inr
    show ?thesis by (simp add: up)
  qed
qed

lemma py_range_starts:
  assumes "0 < c"
  shows "py_range li c = Inr (map (\<lambda>i. int i * c) [0 ..< nat ((li + c - 1) div c)])"
    and "\<forall>i < nat ((li + c - 1) div c). int i * c < li"
proof -
  show "py_range li c = Inr (map (\<lambda>i. int i * c) [0 ..< nat ((li + c - 1) div c)])"
    using assms by (simp add: py_range_def)
  show "\<forall>i < nat ((li + c - 1) div c). int i * c < li"
  proof (intro allI impI)
    fix i assume "i < nat ((li + c - 1) div c)"
    then have "int i + 1 \<le> (li + c - 1) div c" by linarith
    then have "(int i + 1) * c \<le> ((li + c - 1) div c) * c"
      using assms by (intro mult_right_mono) simp_all
    also have "\<dots> \<le> li + c - 1"
      using assms by (metis div_mult_mod_eq le_add_same_cancel1 pos_mod_sign)
    finally show "int i * c < li" by (simp add: algebra_simps)
  qed
qed


lemma finish_utxos_budget:
  assumes "utxo_calls s \<le> k" and "int (length (requested_hashes s)) = utxo_calls s"
  shows "case finish_utxos s of
           Inl (err, reqs) \<Rightarrow> int (length reqs) \<le> k
         | Inr (n, s') \<Rightarrow> n \<le> k \<and> int (length (requested_hashes s')) = n"
  using assms by (auto simp add: finish_utxos_def split: sum.splits)

lemma fetch_utxos_budget:
  assumes "0 \<le> k"
  shows "case fetch_utxos e k cache ud of
           Inl (err, reqs) \<Rightarrow> int (length reqs) \<le> min k (int (length cache))
         | Inr (n, s) \<Rightarrow> n \<le> min k (int (length cache)) \<and> int (length (requested_hashes s)) = n"
proof (cases "cpu_count e = 0")
  case True
  then show ?thesis using assms by (simp add: fetch_utxos_def py_range_def)
next
  case False
  define c where "c = int (cpu_count e)"
  define li where "li = min k (int (length cache))"
  define m where "m = nat ((li + c - 1) div c)"
  have c: "0 < c" using False by (simp add: c_def)
  have li: "li \<le> int (length cache)" "0 \<le> li" using assms by (simp_all add: li_def)
  note r = py_range_starts [OF c, of li, folded m_def]
  have "case utxo_loop e cache li (map (\<lambda>i. int i * c) [0 ..< m]) (utxo_start e ud) of
            Inl (err, reqs) \<Rightarrow> int (length reqs) \<le> li
          | Inr s' \<Rightarrow> 0 \<le> utxo_calls s' \<and> utxo_calls s' \<le> li \<and>
                      int (length (requested_hashes s')) = utxo_calls s'"
    using li(2) by (intro utxo_loop_budget [OF c li(1) r(2)]) (simp_all add: utxo_start_def c_def)
  then have loop: "case utxo_loop e cache li (map (\<lambda>i. int i * c) [0 ..< m]) (utxo_start e ud) of
            Inl (err, reqs) \<Rightarrow> int (length reqs) \<le> li
          | Inr s' \<Rightarrow> utxo_calls s' \<le> li \<and> int (length (requested_hashes s')) = utxo_calls s'"
    by (auto split: sum.splits)
  have unfold: "fetch_utxos e k cache ud =
      (case utxo_loop e cache li (map (\<lambda>i. int i * c) [0 ..< m]) (utxo_start e ud) of
         Inl err \<Rightarrow> Inl err | Inr s \<Rightarrow> finish_utxos s)"
    using r(1) by (simp add: fetch_utxos_def li_def [symmetric] c_def [symmetric] Let_def)
  have "case fetch_utxos e k cache ud of
           Inl (err, reqs) \<Rightarrow> int (length reqs) \<le> li
         | Inr (n, s) \<Rightarrow> n \<le> li \<and> int (length (requested_hashes s)) = n"
  proof (cases "utxo_loop e cache li (map (\<lambda>i. int i * c) [0 ..< m]) (utxo_start e ud)")
    case (Inl a)
    with loop show ?thesis by (simp add: unfold)
  next
    case (Inr s')
    with loop have "utxo_calls s' \<le> li" "int (length (requested_hashes s')) = utxo_calls s'"
      by auto
    from finish_utxos_budget [OF this] Inr show ?thesis by (simp add: unfold)
  qed
  then show ?thesis by (simp only: li_def)
qed

lemma cache_utxos_budget:
  assumes "0 \<le> k"
  shows "case cache_utxos e k td ud of
           Inl (err, reqs) \<Rightarrow> int (length reqs) \<le> k
         | Inr (n, s) \<Rightarrow> n \<le> k \<and> int (length (requested_hashes s)) = n \<and>
             (case get_transaction_cache td of
                None \<Rightarrow> n = 0
              | Some cache \<Rightarrow>
                  (case uncached cache ud of Inl err \<Rightarrow> True | Inr cache' \<Rightarrow> n \<le> int (length cache')))"
proof (cases "get_transaction_cache td")
  case None
  then show ?thesis using assms by (simp add: cache_utxos_def utxo_start_def)
next
  case (Some cache)
  show ?thesis
  proof (cases "uncached cache ud")
    case (Inl a)
    with Some assms show ?thesis by (simp add: cache_utxos_def)
  next
    case (Inr cache')
    with Some fetch_utxos_budget [OF assms, where e = e and cache = cache' and ud = ud] show ?thesis
      by (auto simp add: cache_utxos_def split: sum.splits)
  qed
qed

text \<open>
  C1. For a budget \<open>k \<ge> 1\<close>, a run of \<open>cache_transactions\<close> ends, and a run of
  either flow requests at most \<open>k\<close> remote calls, also when it raises; the count
  it returns is the number of calls requested and is at most \<open>k\<close>. In the
  reference flow a batch that would pass the budget is cut to exactly
  \<open>max_calls - num_calls\<close>; in the detail flow the count is also at most the
  number of transactions not yet cached.
\<close>

theorem call_budget:
  assumes "1 \<le> k"
  shows "(\<exists>r. cache_transactions e pool_id k d = Some r \<and>
            (case r of
               Inl (err, reqs) \<Rightarrow> int (length reqs) \<le> k
             | Inr (n, s) \<Rightarrow> n \<le> k \<and> int (length (requested s)) = n)) \<and>
         (k < num_calls s + call_batch s \<longrightarrow> fetch_batch e pool_id k s = Inr s' \<longrightarrow>
            call_batch s' = k - num_calls s \<and> num_calls s' = k \<and>
            requested s' = requested s @ [page s .. page s + (k - num_calls s) - 1]) \<and>
         (case cache_utxos e k td ud of
            Inl (err, reqs) \<Rightarrow> int (length reqs) \<le> k
          | Inr (n, u) \<Rightarrow> n \<le> k \<and> int (length (requested_hashes u)) = n \<and>
              (case get_transaction_cache td of
                 None \<Rightarrow> n = 0
               | Some cache \<Rightarrow>
                   (case uncached cache ud of Inl err \<Rightarrow> True | Inr cache' \<Rightarrow> n \<le> int (length cache'))))"
proof -
  have "0 \<le> k" using assms by simp
  from cache_utxos_budget [OF this] cache_transactions_budget [OF assms] fetch_batch_sized_down
  show ?thesis by blast
qed

definition three_months_dir :: "PoolTransactionReference directory" where
  "three_months_dir = [(''202301.arrow'', [jan5, jan9]), (''202306.arrow'', [jun1])]"

theorem call_budget_witness:
  "(1::int) \<le> 2 \<and>
   map_option (map_sum id fst) (cache_transactions (example_env 4 [jan5, jan9, jun1]) ''pool1'' 2 [])
     = Some (Inr 2) \<and>
   map_option (map_sum id (requested \<circ> snd))
     (cache_transactions (example_env 4 [jan5, jan9, jun1]) ''pool1'' 2 []) = Some (Inr [1, 2]) \<and>
   map_sum id fst (cache_utxos (example_env 4 []) 2 three_months_dir []) = Inr 2 \<and>
   map_sum id (requested_hashes \<circ> snd) (cache_utxos (example_env 4 []) 2 three_months_dir [])
     = Inr [''1'', ''2''] \<and>
   (\<exists>r. cache_transactions (example_env 4 [jan5, jan9, jun1]) ''pool1'' 2 [] = Some r \<and>
        (case r of
           Inl (err, reqs) \<Rightarrow> int (length reqs) \<le> 2
         | Inr (n, s) \<Rightarrow> n \<le> 2 \<and> int (length (requested s)) = n))"
proof -
  let ?e = "example_env 4 [jan5, jan9, jun1]"
  have k: "(1::int) \<le> 2" by simp
  have a: "map_option (map_sum id fst) (cache_transactions ?e ''pool1'' 2 []) = Some (Inr 2)"
    by code_simp
  have b: "map_option (map_sum id (requested \<circ> snd)) (cache_transactions ?e ''pool1'' 2 [])
             = Some (Inr [1, 2])"
    by code_simp
  have c: "map_sum id fst (cache_utxos (example_env 4 []) 2 three_months_dir []) = Inr 2"
    by code_simp
  have d: "map_sum id (requested_hashes \<circ> snd) (cache_utxos (example_env 4 []) 2 three_months_dir [])
             = Inr [''1'', ''2'']"
    by code_simp
  from call_budget [OF k, of ?e "''pool1''" "[]"]
  have "\<exists>r. cache_transactions ?e ''pool1'' 2 [] = Some r \<and>
        (case r of
           Inl (err, reqs) \<Rightarrow> int (length reqs) \<le> 2
         | Inr (n, s) \<Rightarrow> n \<le> 2 \<and> int (length (requested s)) = n)"
    by blast
  with k a b c d show ?thesis by blast
qed

section \<open>The resume point\<close>

lemma upto_extend:
  "p0 \<le> q + 1 \<Longrightarrow> q \<le> r \<Longrightarrow> [p0 .. q] @ [q + 1 .. r] = [p0 .. (r::int)]"
proof (cases "p0 \<le> q")
  case True
  assume "q \<le> r"
  with True show ?thesis by (simp add: upto_split2 [of p0 q r])
next
  case False
  assume "p0 \<le> q + 1" "q \<le> r"
  with False have "p0 = q + 1" by simp
  then show ?thesis by simp
qed

lemma fetch_batch_pages:
  assumes "num_calls s < k" and "1 \<le> call_batch s" and "0 \<le> num_calls s"
    and "page s = p0 + num_calls s" and "requested s = [p0 .. p0 + num_calls s - 1]"
  shows "case fetch_batch e p k s of
           Inl (err, reqs) \<Rightarrow> reqs = [p0 .. p0 + int (length reqs) - 1]
         | Inr s' \<Rightarrow> 1 \<le> call_batch s' \<and> num_calls s < num_calls s' \<and> page s' = p0 + num_calls s' \<and>
                     requested s' = [p0 .. p0 + num_calls s' - 1]"
proof -
  define b where "b = (if k < num_calls s + call_batch s then k - num_calls s else call_batch s)"
  have b: "1 \<le> b" using assms(1,2) by (simp add: b_def)
  have ext: "requested s @ [page s .. page s + b - 1] = [p0 .. p0 + (num_calls s + b) - 1]"
    using upto_extend [of p0 "p0 + num_calls s - 1" "p0 + (num_calls s + b) - 1"] assms(3,4,5) b
    by (simp add: algebra_simps)
  have len: "int (length [p0 .. p0 + (num_calls s + b) - 1]) = num_calls s + b"
    using assms(3) b by simp
  show ?thesis
    using b ext len assms(3,4)
    by (auto simp add: fetch_batch_def Let_def b_def [symmetric] split: sum.splits prod.splits)
qed

lemma fetch_loop_pages:
  assumes "1 \<le> call_batch s" and "0 \<le> num_calls s"
    and "page s = p0 + num_calls s" and "requested s = [p0 .. p0 + num_calls s - 1]"
  shows "\<exists>r. fetch_loop e p k s = Some r \<and>
           (case r of
              Inl (err, reqs) \<Rightarrow> reqs = [p0 .. p0 + int (length reqs) - 1]
            | Inr s' \<Rightarrow> requested s' = [p0 .. p0 + num_calls s' - 1])"
  using assms
proof (induction "nat (k - num_calls s)" arbitrary: s rule: less_induct)
  case less
  show ?case
  proof (cases "\<not> is_done s \<and> num_calls s < k")
    case False
    then show ?thesis using less.prems by (subst fetch_loop.simps) auto
  next
    case True
    then have lt: "num_calls s < k" by simp
    note b = fetch_batch_pages [OF lt less.prems, of e p]
    show ?thesis
    proof (cases "fetch_batch e p k s")
      case (Inl a)
      with b True show ?thesis by (subst fetch_loop.simps) (auto split: prod.splits)
    next
      case (Inr s')
      with b have s': "1 \<le> call_batch s'" "num_calls s < num_calls s'"
        "page s' = p0 + num_calls s'" "requested s' = [p0 .. p0 + num_calls s' - 1]" by auto
      then have "nat (k - num_calls s') < nat (k - num_calls s)" using lt by linarith
      from less.hyps [OF this s'(1) _ s'(3,4)] s'(2) less.prems(2)
      have "\<exists>r. fetch_loop e p k s' = Some r \<and>
           (case r of
              Inl (err, reqs) \<Rightarrow> reqs = [p0 .. p0 + int (length reqs) - 1]
            | Inr s' \<Rightarrow> requested s' = [p0 .. p0 + num_calls s' - 1])"
        by simp
      with Inr True show ?thesis by (subst fetch_loop.simps) simp
    qed
  qed
qed

lemma cache_transactions_pages:
  "case cache_transactions e pool_id k d of
     None \<Rightarrow> False
   | Some (Inl (err, reqs)) \<Rightarrow>
       reqs = [fst (resume_estimate e (get_transaction_cache d)) ..
               fst (resume_estimate e (get_transaction_cache d)) + int (length reqs) - 1]
   | Some (Inr (n, s)) \<Rightarrow>
       requested s = [fst (resume_estimate e (get_transaction_cache d)) ..
                      fst (resume_estimate e (get_transaction_cache d)) + n - 1]"
proof -
  obtain page0 batch0 where est: "resume_estimate e (get_transaction_cache d) = (page0, batch0)"
    by (cases "resume_estimate e (get_transaction_cache d)")
  define batch1 where "batch1 = (if batch0 = 0 then 1 else batch0)"
  have p: "fst (resume_estimate e (get_transaction_cache d)) = page0" using est by simp
  have "case cache_transactions e pool_id k d of
     None \<Rightarrow> False
   | Some (Inl (err, reqs)) \<Rightarrow> reqs = [page0 .. page0 + int (length reqs) - 1]
   | Some (Inr (n, s)) \<Rightarrow> requested s = [page0 .. page0 + n - 1]"
  proof (cases "batch1 \<le> 0")
    case True
    then show ?thesis using est by (simp add: cache_transactions_def batch1_def)
  next
    case False
    then have "1 \<le> call_batch (ref_start page0 batch1 d)" by (simp add: ref_start_def)
    from fetch_loop_pages [OF this, of page0 e pool_id k]
    obtain r where r: "fetch_loop e pool_id k (ref_start page0 batch1 d) = Some r"
      and b: "case r of Inl (err, reqs) \<Rightarrow> reqs = [page0 .. page0 + int (length reqs) - 1]
              | Inr s' \<Rightarrow> requested s' = [page0 .. page0 + num_calls s' - 1]"
      by (auto simp add: ref_start_def)
    show ?thesis
    proof (cases r)
      case (Inl a)
      with r b False est show ?thesis
        by (simp add: cache_transactions_def batch1_def [symmetric])
    next
      case (Inr s')
      with b have "requested s' = [page0 .. page0 + num_calls s' - 1]" by simp
      then have "case finish_transactions s' of
          Inl (err, reqs) \<Rightarrow> reqs = [page0 .. page0 + int (length reqs) - 1]
        | Inr (n, s) \<Rightarrow> requested s = [page0 .. page0 + n - 1]"
        by (auto simp add: finish_transactions_def split: sum.splits)
      with r Inr False est show ?thesis
        by (simp add: cache_transactions_def batch1_def [symmetric])
    qed
  qed
  then show ?thesis unfolding p .
qed

lemma cache_transactions_uncached:
  assumes "get_transaction_cache d = None" and "0 < cpu_count e"
  shows "cache_transactions e pool_id k d =
           (case fetch_loop e pool_id k
                   \<lparr>page = 1, call_batch = int (cpu_count e), num_calls = 0, is_done = False,
                    transactions = [], cache_path = d, limit = init_limiter, requested = []\<rparr> of
              None \<Rightarrow> None
            | Some (Inl err) \<Rightarrow> Some (Inl err)
            | Some (Inr s) \<Rightarrow> Some (finish_transactions s))"
  using assms by (simp add: cache_transactions_def resume_estimate_def ref_start_def)

lemma first_batch_pages:
  assumes "1 \<le> c" and "c \<le> k"
  shows "case fetch_batch e pool_id k
                \<lparr>page = 1, call_batch = c, num_calls = 0, is_done = False,
                 transactions = [], cache_path = d, limit = init_limiter, requested = []\<rparr> of
           Inl (err, reqs) \<Rightarrow> reqs = [1 .. c]
         | Inr s' \<Rightarrow> requested s' = [1 .. c] \<and> call_batch s' = c"
  using assms by (auto simp add: fetch_batch_def Let_def split: sum.splits prod.splits)

text \<open>
  C8. A run requests consecutive pages, and the first is \<open>len(cache) div 100 + 1\<close>
  when there is a local cache and page 1 when there is none. With no cache the
  loop starts at page 1 with a batch size equal to the core count, and its first
  batch requests that many pages when the budget allows.
\<close>

theorem resume_start_page:
  "(case cache_transactions e pool_id k d of
      None \<Rightarrow> False
    | Some (Inl (err, reqs)) \<Rightarrow>
        (case get_transaction_cache d of
           None \<Rightarrow> reqs = [1 .. int (length reqs)]
         | Some c \<Rightarrow> reqs = [int (length c) div 100 + 1 .. int (length c) div 100 + int (length reqs)])
    | Some (Inr (n, s)) \<Rightarrow>
        (case get_transaction_cache d of
           None \<Rightarrow> requested s = [1 .. n]
         | Some c \<Rightarrow> requested s = [int (length c) div 100 + 1 .. int (length c) div 100 + n])) \<and>
   (get_transaction_cache d = None \<longrightarrow> 0 < cpu_count e \<longrightarrow>
      (let s0 = \<lparr>page = 1, call_batch = int (cpu_count e), num_calls = 0, is_done = False,
                 transactions = [], cache_path = d, limit = init_limiter, requested = []\<rparr>
       in cache_transactions e pool_id k d =
            (case fetch_loop e pool_id k s0 of
               None \<Rightarrow> None
             | Some (Inl err) \<Rightarrow> Some (Inl err)
             | Some (Inr s) \<Rightarrow> Some (finish_transactions s)) \<and>
          (int (cpu_count e) \<le> k \<longrightarrow>
             (case fetch_batch e pool_id k s0 of
                Inl (err, reqs) \<Rightarrow> reqs = [1 .. int (cpu_count e)]
              | Inr s' \<Rightarrow> requested s' = [1 .. int (cpu_count e)] \<and>
                          call_batch s' = int (cpu_count e)))))"
proof -
  have pages: "case cache_transactions e pool_id k d of
      None \<Rightarrow> False
    | Some (Inl (err, reqs)) \<Rightarrow>
        (case get_transaction_cache d of
           None \<Rightarrow> reqs = [1 .. int (length reqs)]
         | Some c \<Rightarrow> reqs = [int (length c) div 100 + 1 .. int (length c) div 100 + int (length reqs)])
    | Some (Inr (n, s)) \<Rightarrow>
        (case get_transaction_cache d of
           None \<Rightarrow> requested s = [1 .. n]
         | Some c \<Rightarrow> requested s = [int (length c) div 100 + 1 .. int (length c) div 100 + n])"
  proof (cases "get_transaction_cache d")
    case None
    then have "fst (resume_estimate e (get_transaction_cache d)) = 1"
      by (simp add: resume_estimate_def)
    from cache_transactions_pages [where e = e and pool_id = pool_id and k = k and d = d, unfolded this] None
    show ?thesis by (auto split: option.splits sum.splits prod.splits)
  next
    case (Some c)
    then have "fst (resume_estimate e (get_transaction_cache d)) = int (length c) div 100 + 1"
      by (simp add: resume_estimate_def Let_def)
    from cache_transactions_pages [where e = e and pool_id = pool_id and k = k and d = d, unfolded this] Some
    show ?thesis by (auto simp add: algebra_simps split: option.splits sum.splits prod.splits)
  qed
  have batch: "get_transaction_cache d = None \<longrightarrow> 0 < cpu_count e \<longrightarrow>
      (let s0 = \<lparr>page = 1, call_batch = int (cpu_count e), num_calls = 0, is_done = False,
                 transactions = [], cache_path = d, limit = init_limiter, requested = []\<rparr>
       in cache_transactions e pool_id k d =
            (case fetch_loop e pool_id k s0 of
               None \<Rightarrow> None
             | Some (Inl err) \<Rightarrow> Some (Inl err)
             | Some (Inr s) \<Rightarrow> Some (finish_transactions s)) \<and>
          (int (cpu_count e) \<le> k \<longrightarrow>
             (case fetch_batch e pool_id k s0 of
                Inl (err, reqs) \<Rightarrow> reqs = [1 .. int (cpu_count e)]
              | Inr s' \<Rightarrow> requested s' = [1 .. int (cpu_count e)] \<and>
                          call_batch s' = int (cpu_count e))))"
    unfolding Let_def
  proof (intro impI conjI)
    assume a: "get_transaction_cache d = None" "0 < cpu_count e"
    show "cache_transactions e pool_id k d =
            (case fetch_loop e pool_id k
                   \<lparr>page = 1, call_batch = int (cpu_count e), num_calls = 0, is_done = False,
                    transactions = [], cache_path = d, limit = init_limiter, requested = []\<rparr> of
               None \<Rightarrow> None
             | Some (Inl err) \<Rightarrow> Some (Inl err)
             | Some (Inr s) \<Rightarrow> Some (finish_transactions s))"
      by (rule cache_transactions_uncached [OF a])
    assume "int (cpu_count e) \<le> k"
    moreover have "1 \<le> int (cpu_count e)" using a(2) by simp
    ultimately show "case fetch_batch e pool_id k
                \<lparr>page = 1, call_batch = int (cpu_count e), num_calls = 0, is_done = False,
                 transactions = [], cache_path = d, limit = init_limiter, requested = []\<rparr> of
           Inl (err, reqs) \<Rightarrow> reqs = [1 .. int (cpu_count e)]
         | Inr s' \<Rightarrow> requested s' = [1 .. int (cpu_count e)] \<and> call_batch s' = int (cpu_count e)"
      by (intro first_batch_pages)
  qed
  from pages batch show ?thesis by (rule conjI)
qed

text \<open>
  A cache of 100 records over 25 seconds, read 60 seconds after its last record:
  4 transactions per second, 240 transactions to come, a batch of 2 pages.
\<close>

definition recs100 :: "PoolTransactionReference list" where
  "recs100 = map (\<lambda>i. mk_reference i (mk_datetime 2023 1 5 ((i + 3) div 4))) [0 ..< 100]"

definition resumed_env :: env where
  "resumed_env = (example_env 4 [])\<lparr>utcnow_start := 63808560085, utcnow_estimate := 63808560085\<rparr>"

theorem resume_start_page_witness:
  "get_transaction_cache [(''202301.arrow'', recs100)] = Some recs100 \<and>
   int (length recs100) div 100 + 1 = 2 \<and>
   map_option (map_sum id (requested \<circ> snd))
     (cache_transactions resumed_env ''pool1'' 10 [(''202301.arrow'', recs100)]) = Some (Inr [2, 3]) \<and>
   get_transaction_cache [] = None \<and>
   0 < cpu_count (example_env 4 [jan5, jan9, jun1]) \<and>
   int (cpu_count (example_env 4 [jan5, jan9, jun1])) \<le> 10 \<and>
   map_option (map_sum id (requested \<circ> snd))
     (cache_transactions (example_env 4 [jan5, jan9, jun1]) ''pool1'' 10 []) = Some (Inr [1, 2, 3, 4]) \<and>
   cache_transactions (example_env 4 [jan5, jan9, jun1]) ''pool1'' 10 [] =
     (case fetch_loop (example_env 4 [jan5, jan9, jun1]) ''pool1'' 10
             \<lparr>page = 1, call_batch = 4, num_calls = 0, is_done = False,
              transactions = [], cache_path = [], limit = init_limiter, requested = []\<rparr> of
        None \<Rightarrow> None
      | Some (Inl err) \<Rightarrow> Some (Inl err)
      | Some (Inr s) \<Rightarrow> Some (finish_transactions s))"
proof -
  let ?d = "[(''202301.arrow'', recs100)]"
  let ?e = "example_env 4 [jan5, jan9, jun1]"
  have some: "get_transaction_cache ?d = Some recs100"
    by (simp add: get_transaction_cache_def open_cache_def glob_match_def is_digit_def)
  have len: "int (length recs100) = 100" by (simp add: recs100_def)
  have n: "map_option (map_sum id fst) (cache_transactions resumed_env ''pool1'' 10 ?d) = Some (Inr 2)"
    by code_simp
  have none: "get_transaction_cache [] = None" by code_simp
  have cpus: "0 < cpu_count ?e" "int (cpu_count ?e) \<le> 10" "int (cpu_count ?e) = 4"
    by (simp_all add: example_env_def)
  have m: "map_option (map_sum id fst) (cache_transactions ?e ''pool1'' 10 []) = Some (Inr 4)"
    by code_simp
  have upto: "[2 .. 3] = [2, 3::int]" "[1 .. 4] = [1, 2, 3, 4::int]" by code_simp+
  note resumed = resume_start_page [where e = resumed_env and pool_id = "''pool1''" and k = 10 and d = ?d]
  note fresh = resume_start_page [where e = ?e and pool_id = "''pool1''" and k = 10 and d = "[]"]
  from resumed [THEN conjunct1] some len n upto
  have a: "map_option (map_sum id (requested \<circ> snd)) (cache_transactions resumed_env ''pool1'' 10 ?d)
             = Some (Inr [2, 3])"
    by (auto split: option.splits sum.splits prod.splits)
  from fresh [THEN conjunct1] none m upto
  have b: "map_option (map_sum id (requested \<circ> snd)) (cache_transactions ?e ''pool1'' 10 [])
             = Some (Inr [1, 2, 3, 4])"
    by (auto split: option.splits sum.splits prod.splits)
  from fresh [THEN conjunct2] none cpus
  have c: "cache_transactions ?e ''pool1'' 10 [] =
     (case fetch_loop ?e ''pool1'' 10
             \<lparr>page = 1, call_batch = 4, num_calls = 0, is_done = False,
              transactions = [], cache_path = [], limit = init_limiter, requested = []\<rparr> of
        None \<Rightarrow> None
      | Some (Inl err) \<Rightarrow> Some (Inl err)
      | Some (Inr s) \<Rightarrow> Some (finish_transactions s))"
    by (simp add: Let_def)
  from some len a none cpus(1,2) b c show ?thesis by simp
qed

section \<open>The rate limiter in the loops\<close>










section \<open>Month runs of a record stream\<close>

text \<open>The maximal runs of records with equal \<^verbatim>\<open>.month\<close>, in order.\<close>

function month_runs :: "PoolTransactionReference list \<Rightarrow> PoolTransactionReference list list" where
  "month_runs [] = []"
| "month_runs (r # rs) =
     (r # takeWhile (\<lambda>x. month (time x) = month (time r)) rs)
       # month_runs (dropWhile (\<lambda>x. month (time x) = month (time r)) rs)"
  by pat_completeness auto
termination
  by (relation "measure length") (auto simp add: le_imp_less_Suc length_dropWhile_le)

definition partition_of :: "PoolTransactionReference list \<Rightarrow> string \<times> PoolTransactionReference list" where
  "partition_of run = (cache_name (time (hd run)), run)"

definition months_contiguous :: "PoolTransactionReference list \<Rightarrow> bool" where
  "months_contiguous recs = distinct (map (\<lambda>run. month (time (hd run))) (month_runs recs))"

definition valid_months :: "PoolTransactionReference list \<Rightarrow> bool" where
  "valid_months recs = list_all (\<lambda>r. 1 \<le> month (time r) \<and> month (time r) \<le> 12) recs"

definition pending :: "PoolTransactionReference list \<Rightarrow> PoolTransactionReference list" where
  "pending recs = (if recs = [] then [] else last (month_runs recs))"

lemma month_runs_concat: "concat (month_runs xs) = xs"
  by (induction xs rule: month_runs.induct) simp_all

lemma month_runs_Nil_iff: "month_runs xs = [] \<longleftrightarrow> xs = []"
  by (cases xs) simp_all

lemma month_runs_nonempty: "run \<in> set (month_runs xs) \<Longrightarrow> run \<noteq> []"
  by (induction xs rule: month_runs.induct) auto

lemma month_runs_uniform:
  "run \<in> set (month_runs xs) \<Longrightarrow> x \<in> set run \<Longrightarrow> month (time x) = month (time (hd run))"
  by (induction xs rule: month_runs.induct) (auto dest: set_takeWhileD)

lemma month_runs_subset: "run \<in> set (month_runs xs) \<Longrightarrow> set run \<subseteq> set xs"
  using month_runs_concat [of xs] by (metis Sup_upper image_eqI set_concat)

lemma last_month_runs: "xs \<noteq> [] \<Longrightarrow> last (last (month_runs xs)) = last xs"
proof -
  assume "xs \<noteq> []"
  then have ne: "month_runs xs \<noteq> []" by (simp add: month_runs_Nil_iff)
  then have "last (month_runs xs) \<noteq> []" using month_runs_nonempty last_in_set by blast
  then have "last (concat (month_runs xs)) = last (last (month_runs xs))"
    using ne by (metis append_butlast_last_id concat.simps(2) concat_append last_appendR append_Nil2 concat.simps(1))
  then show ?thesis by (simp add: month_runs_concat)
qed

lemma month_runs_append:
  "xs \<noteq> [] \<Longrightarrow>
     month_runs (xs @ ys) = butlast (month_runs xs) @ month_runs (last (month_runs xs) @ ys)"
proof (induction xs rule: month_runs.induct)
  case 1
  then show ?case by simp
next
  case (2 r rs)
  let ?P = "\<lambda>x. month (time x) = month (time r)"
  show ?case
  proof (cases "dropWhile ?P rs = []")
    case True
    then have tk: "takeWhile ?P rs = rs" by (metis takeWhile_dropWhile_id append_Nil2)
    have mr: "month_runs (r # rs) = [r # rs]" by (simp only: month_runs.simps True tk)
    have b: "butlast [r # rs] = []" and l: "last [r # rs] = r # rs" by simp_all
    show ?thesis by (simp only: mr b l append_Nil)
  next
    case False
    then have "\<not> (\<forall>x \<in> set rs. ?P x)" by (simp add: dropWhile_eq_Nil_conv)
    then obtain x where x: "x \<in> set rs" "\<not> ?P x" by blast
    then have t: "takeWhile ?P (rs @ ys) = takeWhile ?P rs"
      and d: "dropWhile ?P (rs @ ys) = dropWhile ?P rs @ ys"
      by (simp_all add: takeWhile_append1 dropWhile_append1)
    have ne: "month_runs (dropWhile ?P rs) \<noteq> []" using False by (simp add: month_runs_Nil_iff)
    let ?rest = "dropWhile ?P rs"
    have "month_runs ((r # rs) @ ys) = (r # takeWhile ?P rs) # month_runs (?rest @ ys)"
      by (simp only: append_Cons month_runs.simps t d)
    also have "\<dots> = (r # takeWhile ?P rs) #
        (butlast (month_runs ?rest) @ month_runs (last (month_runs ?rest) @ ys))"
      by (simp only: "2.IH" [OF False])
    also have "\<dots> = butlast ((r # takeWhile ?P rs) # month_runs ?rest)
        @ month_runs (last ((r # takeWhile ?P rs) # month_runs ?rest) @ ys)"
      using ne by (simp only: butlast.simps last.simps if_False append_Cons)
    finally show ?thesis by (simp only: month_runs.simps)
  qed
qed

lemma zfill_month:
  assumes "m < 100"
  shows "zfill 2 (str_nat m) = [digit (m div 10), digit (m mod 10)]"
proof (cases "m < 10")
  case True
  then show ?thesis by (simp add: str_nat.simps [of m] zfill_def digit_def)
next
  case False
  with assms have "m div 10 < 10" by simp
  with False show ?thesis
    by (simp add: str_nat.simps [of m] str_nat.simps [of "m div 10"] zfill_def)
qed

lemma digit_inj: "a < 10 \<Longrightarrow> b < 10 \<Longrightarrow> digit a = digit b \<Longrightarrow> a = b"
proof -
  assume "a < 10" "b < 10" and e: "digit a = digit b"
  then have "a \<in> {0,1,2,3,4,5,6,7,8,9}" "b \<in> {0,1,2,3,4,5,6,7,8,9}" by auto
  with e show ?thesis by (auto simp: digit_def)
qed

lemma cache_name_month:
  assumes "month t < 100" and "month t' < 100" and "cache_name t = cache_name t'"
  shows "month t = month t'"
proof -
  let ?z = "\<lambda>m. [digit (m div 10), digit (m mod 10)]"
  from assms have "str_nat (year t) @ ?z (month t) = str_nat (year t') @ ?z (month t')"
    by (simp add: cache_name_def zfill_month)
  then have "?z (month t) = ?z (month t')" by simp
  then have "month t div 10 = month t' div 10" "month t mod 10 = month t' mod 10"
    using assms(1,2) by (auto intro!: digit_inj)
  then show ?thesis by (metis div_mult_mod_eq)
qed

section \<open>The flush loop on a stream of contiguous months\<close>

lemma update_fresh: "map_of d k = None \<Longrightarrow> AList.update k v d = d @ [(k, v)]"
  by (induction d) (auto split: if_splits)

lemma slice_leading_run:
  assumes "month (time r) \<noteq> month (time (last (r # rs)))"
    and "map_of d (cache_name (time r)) = None"
  shows "p_cache_transactions (r # rs) d
           = Inr (dropWhile (\<lambda>x. month (time x) = month (time r)) rs,
                  d @ [partition_of (r # takeWhile (\<lambda>x. month (time x) = month (time r)) rs)])"
proof -
  let ?P = "\<lambda>x. month (time x) = month (time r)"
  have ne: "map time (r # rs) \<noteq> []" by simp
  have l: "last (map time (r # rs)) = time (last (r # rs))" by (rule last_map) simp
  have h: "hd (map time (r # rs)) = time r" by simp
  have diff: "month (hd (map time (r # rs))) \<noteq> month (last (map time (r # rs)))"
    unfolding l h using assms(1) .
  have "split_index (map time (r # rs)) = length (takeWhile (\<lambda>t. month t = month (time r)) (map time (r # rs)))"
    using split_index_run [OF ne diff] by simp
  also have "\<dots> = Suc (length (takeWhile ?P rs))"
    by (simp add: takeWhile_map comp_def)
  finally have "split_index (map time (r # rs)) = Suc (length (takeWhile ?P rs))" .
  then have idx: "split_index (time r # map time rs) = Suc (length (takeWhile ?P rs))" by simp
  have tk: "take (length (takeWhile ?P rs)) rs = takeWhile ?P rs"
    by (simp add: takeWhile_eq_take [symmetric])
  have dr: "drop (length (takeWhile ?P rs)) rs = dropWhile ?P rs"
    by (simp add: dropWhile_eq_drop [symmetric])
  show ?thesis
    using assms(2)
    by (simp add: p_cache_transactions_def cache_slice_def idx tk dr merge_fresh update_fresh
        partition_of_def Let_def)
qed


lemma cache_name_fresh:
  assumes "month (time a) \<noteq> month (time b)"
    and "month (time a) \<le> 12" and "month (time b) \<le> 12"
  shows "cache_name (time a) \<noteq> cache_name (time b)"
  using assms cache_name_month [of "time a" "time b"] by auto

lemma valid_monthsD: "valid_months xs \<Longrightarrow> x \<in> set xs \<Longrightarrow> month (time x) \<le> 12"
  by (simp add: valid_months_def list_all_iff)

lemma hd_run_in: "run \<in> set (month_runs xs) \<Longrightarrow> hd run \<in> set xs"
  using month_runs_subset [of run xs] month_runs_nonempty [of run xs] by (auto simp: subset_iff)

lemma flush_runs:
  assumes "valid_months buf" and "months_contiguous buf"
    and "\<forall>run \<in> set (month_runs buf). map_of d (cache_name (time (hd run))) = None"
  shows "flush_while time (\<lambda>ts. ts) time buf d
           = Inr (pending buf, d @ map partition_of (butlast (month_runs buf)))"
  using assms
proof (induction buf arbitrary: d rule: month_runs.induct)
  case 1
  show ?case by (simp add: flush_while.simps [of _ _ _ "[]"] pending_def)
next
  case (2 r rs)
  let ?P = "\<lambda>x. month (time x) = month (time r)"
  let ?run = "r # takeWhile ?P rs"
  let ?rest = "dropWhile ?P rs"
  have runs: "month_runs (r # rs) = ?run # month_runs ?rest" by simp
  show ?case
  proof (cases "?rest = []")
    case True
    then have all: "\<forall>x \<in> set rs. ?P x" by (simp add: dropWhile_eq_Nil_conv)
    have tk: "takeWhile ?P rs = rs" using all by (simp add: takeWhile_eq_all_conv)
    have mr: "month_runs (r # rs) = [r # rs]" by (simp only: month_runs.simps True tk)
    have "month (time (last (r # rs))) = month (time r)"
      using all by (cases "rs = []") simp_all
    then have "flush_while time (\<lambda>ts. ts) time (r # rs) d = Inr (r # rs, d)"
      by (simp add: flush_while.simps [of _ _ _ "r # rs"])
    then show ?thesis by (simp only: mr pending_def) simp
  next
    case False
    then have ne: "month_runs ?rest \<noteq> []" by (simp add: month_runs_Nil_iff)
    let ?L = "last (month_runs ?rest)"
    have Lin: "?L \<in> set (month_runs ?rest)" using ne by simp
    then have Lne: "?L \<noteq> []" by (rule month_runs_nonempty)
    have rs: "rs = takeWhile ?P rs @ ?rest" by simp
    have "last (r # rs) = last ?rest"
      using False by (metis rs last_appendR last_ConsR append_is_Nil_conv)
    also have "\<dots> = last ?L" using False by (simp add: last_month_runs)
    finally have lastL: "last (r # rs) = last ?L" .
    have dist: "month (time r) \<notin> set (map (\<lambda>run. month (time (hd run))) (month_runs ?rest))"
      and cont: "months_contiguous ?rest"
      using "2.prems"(2) by (simp_all add: months_contiguous_def)
    have "month (time (last ?L)) = month (time (hd ?L))"
      using Lne by (intro month_runs_uniform [OF Lin]) simp
    moreover have "month (time (hd ?L)) \<noteq> month (time r)"
      using dist Lin by force
    ultimately have diff: "month (time r) \<noteq> month (time (last (r # rs)))"
      unfolding lastL by simp
    have fresh: "map_of d (cache_name (time r)) = None"
      using "2.prems"(3) by simp
    note step = slice_leading_run [OF diff fresh, unfolded p_cache_transactions_def]
    let ?d' = "d @ [partition_of ?run]"
    have sub: "set ?rest \<subseteq> set rs" by (simp add: set_dropWhileD subsetI)
    have valid: "valid_months ?rest"
      using "2.prems"(1) sub by (auto simp add: valid_months_def list_all_iff)
    have fresh': "\<forall>run \<in> set (month_runs ?rest). map_of ?d' (cache_name (time (hd run))) = None"
    proof
      fix run assume run: "run \<in> set (month_runs ?rest)"
      then have a: "map_of d (cache_name (time (hd run))) = None"
        using "2.prems"(3) by simp
      have "hd run \<in> set ?rest" using run by (rule hd_run_in)
      then have v: "month (time (hd run)) \<le> 12"
        using valid valid_monthsD by blast
      have v': "month (time r) \<le> 12"
        using "2.prems"(1) by (simp add: valid_months_def)
      have "month (time (hd run)) \<noteq> month (time r)" using dist run by force
      then have "cache_name (time (hd run)) \<noteq> cache_name (time r)"
        using v v' by (intro cache_name_fresh)
      with a show "map_of ?d' (cache_name (time (hd run))) = None"
        by (simp add: partition_of_def map_add_def map_of_append)
    qed
    have IH: "flush_while time (\<lambda>ts. ts) time ?rest ?d'
            = Inr (pending ?rest, ?d' @ map partition_of (butlast (month_runs ?rest)))"
      using "2.IH" [OF valid cont fresh'] .
    have "flush_while time (\<lambda>ts. ts) time (r # rs) d = flush_while time (\<lambda>ts. ts) time ?rest ?d'"
      using diff step by (simp add: flush_while.simps [of _ _ _ "r # rs"])
    also note IH
    finally have "flush_while time (\<lambda>ts. ts) time (r # rs) d
        = Inr (pending ?rest, ?d' @ map partition_of (butlast (month_runs ?rest)))" .
    moreover have "pending (r # rs) = pending ?rest"
      using ne False by (simp only: pending_def runs) simp
    moreover have "butlast (month_runs (r # rs)) = ?run # butlast (month_runs ?rest)"
      using ne by (simp only: runs) simp
    ultimately show ?thesis by simp
  qed
qed

lemma pending_in_runs: "F \<noteq> [] \<Longrightarrow> pending F \<in> set (month_runs F)"
  by (simp add: pending_def month_runs_Nil_iff)

lemma months_distinct_names:
  assumes "valid_months xs" and "months_contiguous xs"
    and "month_runs xs = B @ M" and "b \<in> set B" and "run \<in> set M"
  shows "cache_name (time (hd b)) \<noteq> cache_name (time (hd run))"
proof -
  let ?h = "\<lambda>run. month (time (hd run))"
  have "distinct (map ?h B @ map ?h M)"
    using assms(2,3) by (simp add: months_contiguous_def)
  then have "?h b \<noteq> ?h run" using assms(4,5) by auto
  moreover have "b \<in> set (month_runs xs)" "run \<in> set (month_runs xs)"
    using assms(3,4,5) by simp_all
  then have "hd b \<in> set xs" "hd run \<in> set xs" by (simp_all add: hd_run_in)
  then have "?h b \<le> 12" "?h run \<le> 12" using assms(1) valid_monthsD by blast+
  ultimately show ?thesis by (intro cache_name_fresh)
qed

lemma fresh_append:
  assumes "valid_months xs" and "months_contiguous xs"
    and "\<forall>run \<in> set (month_runs xs). map_of d0 (cache_name (time (hd run))) = None"
    and "month_runs xs = B @ M" and "run \<in> set M"
  shows "map_of (d0 @ map partition_of B) (cache_name (time (hd run))) = None"
proof -
  have "map_of d0 (cache_name (time (hd run))) = None"
    using assms(3,4,5) by simp
  moreover have "cache_name (time (hd run)) \<notin> fst ` set (map partition_of B)"
  proof
    assume "cache_name (time (hd run)) \<in> fst ` set (map partition_of B)"
    then obtain b where b: "b \<in> set B" "cache_name (time (hd b)) = cache_name (time (hd run))"
      by (auto simp add: partition_of_def)
    from months_distinct_names [OF assms(1,2,4) b(1) assms(5)] b(2) show False by simp
  qed
  then have "map_of (map partition_of B) (cache_name (time (hd run))) = None"
    by (rule map_of_eq_None_iff [THEN iffD2])
  ultimately show ?thesis by (simp add: map_of_append map_add_def)
qed

lemma flush_append:
  assumes "valid_months (F @ C)" and "months_contiguous (F @ C)"
    and "\<forall>run \<in> set (month_runs (F @ C)). map_of d0 (cache_name (time (hd run))) = None"
  shows "flush_while time (\<lambda>ts. ts) time (pending F @ C)
             (d0 @ map partition_of (butlast (month_runs F)))
           = Inr (pending (F @ C), d0 @ map partition_of (butlast (month_runs (F @ C))))"
proof (cases "F = []")
  case True
  with flush_runs [OF assms] show ?thesis by (simp add: pending_def)
next
  case False
  let ?B = "butlast (month_runs F)"
  let ?M = "month_runs (pending F @ C)"
  have P: "pending F = last (month_runs F)" using False by (simp add: pending_def)
  have split: "month_runs (F @ C) = ?B @ ?M"
    using month_runs_append [OF False] by (simp only: P)
  have Pne: "pending F \<noteq> []"
    using pending_in_runs [OF False] month_runs_nonempty by blast
  then have Mne: "?M \<noteq> []" by (simp add: month_runs_Nil_iff)
  have "set (pending F) \<subseteq> set F"
    using pending_in_runs [OF False] by (rule month_runs_subset)
  then have valid: "valid_months (pending F @ C)"
    using assms(1) by (auto simp add: valid_months_def list_all_iff)
  have cont: "months_contiguous (pending F @ C)"
    using assms(2) by (simp add: months_contiguous_def split)
  have fresh: "\<forall>run \<in> set ?M. map_of (d0 @ map partition_of ?B) (cache_name (time (hd run))) = None"
    using fresh_append [OF assms split] by blast
  have "pending (F @ C) = pending (pending F @ C)"
    using False Pne Mne by (simp add: pending_def split)
  moreover have "butlast (month_runs (F @ C)) = ?B @ butlast ?M"
    using Mne by (simp add: split butlast_append)
  ultimately show ?thesis
    using flush_runs [OF valid cont fresh] by simp
qed

lemma finish_flushed:
  assumes "valid_months F" and "months_contiguous F"
    and "\<forall>run \<in> set (month_runs F). map_of d0 (cache_name (time (hd run))) = None"
    and "F \<noteq> []"
  shows "p_cache_transactions (pending F) (d0 @ map partition_of (butlast (month_runs F)))
           = Inr ([], d0 @ map partition_of (month_runs F))"
proof -
  let ?B = "butlast (month_runs F)"
  let ?L = "pending F"
  have Lin: "?L \<in> set (month_runs F)" using assms(4) by (rule pending_in_runs)
  then have Lne: "?L \<noteq> []" by (rule month_runs_nonempty)
  have split: "month_runs F = ?B @ [?L]"
    using assms(4) by (simp add: pending_def month_runs_Nil_iff)
  have same: "month (time (hd ?L)) = month (time (last ?L))"
    using Lne by (intro month_runs_uniform [OF Lin, symmetric]) simp
  have "map_of (d0 @ map partition_of ?B) (cache_name (time (hd ?L))) = None"
    using fresh_append [OF assms(1,2,3) split] by simp
  then have "p_cache_transactions ?L (d0 @ map partition_of ?B)
      = Inr ([], (d0 @ map partition_of ?B) @ [partition_of ?L])"
    using Lne same
    by (simp add: p_cache_transactions_def cache_slice_whole merge_fresh update_fresh partition_of_def)
  also have "(d0 @ map partition_of ?B) @ [partition_of ?L] = d0 @ map partition_of (?B @ [?L])"
    by simp
  finally show ?thesis by (simp only: split [symmetric])
qed

section \<open>Fetching from a paged provider\<close>

lemma collect_pages_eq:
  "collect_pages threads (dn, ts)
     = (dn \<or> (\<exists>p \<in> set threads. length p \<noteq> 100),
        ts @ concat (takeWhile (\<lambda>p. p \<noteq> []) threads))"
  by (induction threads arbitrary: dn ts) auto

lemma upto_as_upt: "[int q + 1 .. int q + int b] = map (\<lambda>i. int i + 1) [q ..< q + b]"
proof (induction b)
  case 0
  show ?case by simp
next
  case (Suc b)
  have "[int q + 1 .. int q + int (Suc b)] = [int q + 1 .. int q + int b] @ [int q + int b + 1]"
    using upto_rec2 [of "int q + 1" "int q + int b + 1"] by (simp add: algebra_simps)
  with Suc show ?case by simp
qed

lemma paged_page: "paged recs pool_id (int i + 1) = take 100 (drop (100 * i) recs)"
  by (simp add: paged_def)

lemma pages_concat:
  "concat (takeWhile (\<lambda>p. p \<noteq> []) (map (\<lambda>i. take 100 (drop (100 * i) recs)) [q ..< q + b]))
     = take (100 * b) (drop (100 * q) recs)"
proof (induction b arbitrary: q)
  case 0
  show ?case by simp
next
  case (Suc b)
  have up: "[q ..< q + Suc b] = q # [Suc q ..< Suc q + b]" by (simp add: upt_conv_Cons)
  show ?case
  proof (cases "drop (100 * q) recs = []")
    case True
    then show ?thesis unfolding up by simp
  next
    case False
    have "take (100 * Suc b) (drop (100 * q) recs)
        = take 100 (drop (100 * q) recs) @ take (100 * b) (drop 100 (drop (100 * q) recs))"
      using take_add [of 100 "100 * b" "drop (100 * q) recs"] by simp
    also have "drop 100 (drop (100 * q) recs) = drop (100 * Suc q) recs" by (simp add: add.commute)
    finally show ?thesis unfolding up using False Suc [of "Suc q"] by simp
  qed
qed

lemma pages_short:
  assumes "0 < b"
  shows "(\<exists>p \<in> set (map (\<lambda>i. take 100 (drop (100 * i) recs)) [q ..< q + b]). length p \<noteq> 100)
           \<longleftrightarrow> length recs < 100 * (q + b)"
proof
  assume "\<exists>p \<in> set (map (\<lambda>i. take 100 (drop (100 * i) recs)) [q ..< q + b]). length p \<noteq> 100"
  then obtain i where "q \<le> i" "i < q + b" "length (take 100 (drop (100 * i) recs)) \<noteq> 100" by auto
  then show "length recs < 100 * (q + b)" by (auto simp add: min_def split: if_splits)
next
  assume "length recs < 100 * (q + b)"
  then have "length (take 100 (drop (100 * (q + b - 1)) recs)) \<noteq> 100"
    using assms by (auto simp add: min_def algebra_simps)
  moreover have "q + b - 1 \<in> set [q ..< q + b]" using assms by simp
  ultimately show "\<exists>p \<in> set (map (\<lambda>i. take 100 (drop (100 * i) recs)) [q ..< q + b]). length p \<noteq> 100"
    by (metis (no_types, lifting) image_eqI set_map)
qed


lemma paged_threads:
  assumes "0 < batch"
  shows "map (paged recs pool_id) [int q + 1 .. int q + 1 + batch - 1]
           = map (\<lambda>i. take 100 (drop (100 * i) recs)) [q ..< q + nat batch]"
proof -
  have "int q + 1 + batch - 1 = int q + int (nat batch)" using assms by simp
  then have "[int q + 1 .. int q + 1 + batch - 1] = map (\<lambda>i. int i + 1) [q ..< q + nat batch]"
    by (simp only: upto_as_upt)
  then show ?thesis by (simp add: paged_page comp_def)
qed

lemma fetch_batch_paged:
  assumes "get_pool_transaction_history e = paged recs"
    and "page s = int q + 1"
    and "batch = (if k < num_calls s + call_batch s then k - num_calls s else call_batch s)"
    and "0 < batch"
    and "flush_while time (\<lambda>ts. ts) time
           (transactions s @ take (100 * nat batch) (drop (100 * q) recs)) (cache_path s)
           = Inr (ts', d')"
  shows "fetch_batch e pool_id k s
           = Inr (s\<lparr>page := page s + batch,
                  call_batch := batch,
                  num_calls := num_calls s + batch,
                  is_done := (is_done s \<or> length recs < 100 * (q + nat batch)),
                  transactions := ts',
                  cache_path := d',
                  limit := rate_limit e batch (limit s),
                  requested := requested s @ [page s .. page s + batch - 1]\<rparr>)"
proof -
  let ?threads = "map (get_pool_transaction_history e pool_id) [page s .. page s + batch - 1]"
  have th: "?threads = map (\<lambda>i. take 100 (drop (100 * i) recs)) [q ..< q + nat batch]"
    using paged_threads [OF assms(4)] by (simp only: assms(1,2))
  have nb: "0 < nat batch" using assms(4) by simp
  have "collect_pages ?threads (is_done s, transactions s)
      = (is_done s \<or> length recs < 100 * (q + nat batch),
         transactions s @ take (100 * nat batch) (drop (100 * q) recs))"
    by (simp only: collect_pages_eq th pages_concat pages_short [OF nb])
  then show ?thesis
    using assms(5) by (simp add: fetch_batch_def assms(3) [symmetric] Let_def)
qed

lemma fetch_loop_stop:
  "is_done s \<or> k \<le> num_calls s \<Longrightarrow> fetch_loop e pool_id k s = Some (Inr s)"
  by (subst fetch_loop.simps) auto

lemma fetch_loop_step:
  "\<not> is_done s \<Longrightarrow> num_calls s < k \<Longrightarrow> fetch_batch e pool_id k s = Inr s' \<Longrightarrow>
     fetch_loop e pool_id k s = fetch_loop e pool_id k s'"
  by (subst fetch_loop.simps) simp

lemma hd_month_runs: "xs \<noteq> [] \<Longrightarrow> hd (hd (month_runs xs)) = hd xs"
  by (cases xs) simp_all

lemma heads_prefix:
  "\<exists>zs. map hd (month_runs (xs @ ys)) = map hd (month_runs xs) @ zs"
proof (cases "xs = []")
  case True
  then show ?thesis by simp
next
  case False
  let ?B = "butlast (month_runs xs)"
  let ?P = "last (month_runs xs)"
  let ?M = "month_runs (?P @ ys)"
  have ne: "month_runs xs \<noteq> []" using False by (simp add: month_runs_Nil_iff)
  then have Pne: "?P \<noteq> []" using month_runs_nonempty last_in_set by blast
  then have Mne: "?M \<noteq> []" by (simp add: month_runs_Nil_iff)
  have "hd (hd ?M) = hd (?P @ ys)" using Pne by (intro hd_month_runs) simp
  then have h: "hd (hd ?M) = hd ?P" using Pne by simp
  have "map hd (month_runs xs) = map hd ?B @ [hd ?P]"
    using ne by (metis append_butlast_last_id list.simps(8,9) map_append)
  moreover have "map hd ?M = hd (hd ?M) # map hd (tl ?M)"
    using Mne by (cases ?M) simp_all
  ultimately have "map hd (month_runs (xs @ ys)) = map hd (month_runs xs) @ map hd (tl ?M)"
    using month_runs_append [OF False, of ys] h by simp
  then show ?thesis by blast
qed

lemma months_contiguous_heads:
  "months_contiguous xs = distinct (map (\<lambda>r. month (time r)) (map hd (month_runs xs)))"
  by (simp add: months_contiguous_def comp_def)

lemma prefix_contiguous: "months_contiguous (xs @ ys) \<Longrightarrow> months_contiguous xs"
proof -
  assume a: "months_contiguous (xs @ ys)"
  obtain zs where "map hd (month_runs (xs @ ys)) = map hd (month_runs xs) @ zs"
    using heads_prefix by blast
  with a show ?thesis by (simp add: months_contiguous_heads)
qed

lemma prefix_fresh:
  assumes "\<forall>run \<in> set (month_runs (xs @ ys)). map_of d0 (cache_name (time (hd run))) = None"
  shows "\<forall>run \<in> set (month_runs xs). map_of d0 (cache_name (time (hd run))) = None"
proof -
  obtain zs where z: "map hd (month_runs (xs @ ys)) = map hd (month_runs xs) @ zs"
    using heads_prefix by blast
  have "\<forall>h \<in> set (map hd (month_runs (xs @ ys))). map_of d0 (cache_name (time h)) = None"
    using assms by simp
  then have "\<forall>h \<in> set (map hd (month_runs xs)). map_of d0 (cache_name (time h)) = None"
    by (simp add: z)
  then show ?thesis by simp
qed

lemma prefix_valid: "valid_months (xs @ ys) \<Longrightarrow> valid_months xs"
  by (simp add: valid_months_def)

text \<open>
  The state of the fetch loop after \<open>num_calls\<close> pages of the provider \<open>paged recs\<close>,
  read from page \<open>q0 + 1\<close> into the directory \<open>d0\<close>, when every flush so far
  created its partition.
\<close>

definition paging ::
  "PoolTransactionReference list \<Rightarrow> PoolTransactionReference directory \<Rightarrow> nat \<Rightarrow> ref_state \<Rightarrow> bool" where
  "paging recs d0 q0 s =
     (0 \<le> num_calls s \<and> 1 \<le> call_batch s \<and>
      page s = int q0 + 1 + num_calls s \<and>
      (is_done s \<longleftrightarrow> length recs < 100 * (q0 + nat (num_calls s))) \<and>
      requested s = [int q0 + 1 .. int q0 + num_calls s] \<and>
      transactions s = pending (take (100 * nat (num_calls s)) (drop (100 * q0) recs)) \<and>
      cache_path s = d0 @ map partition_of
        (butlast (month_runs (take (100 * nat (num_calls s)) (drop (100 * q0) recs)))))"

lemma paging_step:
  assumes prov: "get_pool_transaction_history e = paged recs"
    and valid: "valid_months (drop (100 * q0) recs)"
    and cont: "months_contiguous (drop (100 * q0) recs)"
    and fresh: "\<forall>run \<in> set (month_runs (drop (100 * q0) recs)).
                  map_of d0 (cache_name (time (hd run))) = None"
    and inv: "paging recs d0 q0 s"
    and go: "\<not> is_done s" "num_calls s < k"
    and batch: "batch = (if k < num_calls s + call_batch s then k - num_calls s else call_batch s)"
  shows "\<exists>s'. fetch_batch e pool_id k s = Inr s' \<and> paging recs d0 q0 s' \<and>
              num_calls s' = num_calls s + batch \<and> call_batch s' = batch"
proof -
  let ?R = "drop (100 * q0) recs"
  let ?n = "nat (num_calls s)"
  let ?F = "take (100 * ?n) ?R"
  let ?C = "take (100 * nat batch) (drop (100 * (q0 + ?n)) recs)"
  have n0: "0 \<le> num_calls s" and cb: "1 \<le> call_batch s" using inv by (simp_all add: paging_def)
  have pos: "0 < batch" using go(2) cb batch by (simp split: if_splits)
  have FC: "?F @ ?C = take (100 * (?n + nat batch)) ?R"
    using take_add [of "100 * ?n" "100 * nat batch" ?R] by (simp add: algebra_simps)
  let ?rest = "drop (100 * (?n + nat batch)) ?R"
  have R: "?R = (?F @ ?C) @ ?rest" by (simp only: FC append_take_drop_id)
  have v: "valid_months (?F @ ?C)"
    using valid by (subst (asm) R) (rule prefix_valid)
  have c: "months_contiguous (?F @ ?C)"
    using cont by (subst (asm) R) (rule prefix_contiguous)
  have f: "\<forall>run \<in> set (month_runs (?F @ ?C)). map_of d0 (cache_name (time (hd run))) = None"
    using fresh by (subst (asm) R) (rule prefix_fresh)
  define G where "G = ?F @ ?C"
  have nn: "nat (num_calls s + batch) = ?n + nat batch" using n0 pos by (simp add: nat_add_distrib)
  have G: "take (100 * nat (num_calls s + batch)) ?R = G" by (simp only: nn FC G_def)
  have page: "page s = int (q0 + ?n) + 1" using inv n0 by (simp add: paging_def)
  have tr: "transactions s = pending ?F"
    and cp: "cache_path s = d0 @ map partition_of (butlast (month_runs ?F))"
    and rq: "requested s = [int q0 + 1 .. int q0 + num_calls s]"
    using inv by (simp_all add: paging_def)
  have fl: "flush_while time (\<lambda>ts. ts) time (transactions s @ ?C) (cache_path s)
      = Inr (pending G, d0 @ map partition_of (butlast (month_runs G)))"
    unfolding tr cp G_def by (rule flush_append [OF v c f])
  note step = fetch_batch_paged [OF prov page batch pos fl, of pool_id]
  let ?s' = "s\<lparr>page := page s + batch, call_batch := batch, num_calls := num_calls s + batch,
      is_done := (is_done s \<or> length recs < 100 * (q0 + ?n + nat batch)),
      transactions := pending G,
      cache_path := d0 @ map partition_of (butlast (month_runs G)),
      limit := rate_limit e batch (limit s),
      requested := requested s @ [page s .. page s + batch - 1]\<rparr>"
  have req: "requested s @ [page s .. page s + batch - 1]
      = [int q0 + 1 .. int q0 + (num_calls s + batch)]"
  proof -
    have "[int q0 + 1 .. int q0 + (num_calls s + batch)]
        = [int q0 + 1 .. int q0 + num_calls s] @ [int q0 + num_calls s + 1 .. int q0 + (num_calls s + batch)]"
    proof (cases "num_calls s = 0")
      case True
      then show ?thesis by simp
    next
      case False
      then show ?thesis using n0 pos by (intro upto_split2) simp_all
    qed
    moreover have "page s + batch - 1 = int q0 + (num_calls s + batch)"
      and "page s = int q0 + num_calls s + 1"
      using page n0 by simp_all
    ultimately show ?thesis by (simp only: rq)
  qed
  have sel: "num_calls ?s' = num_calls s + batch" "call_batch ?s' = batch"
    "page ?s' = page s + batch"
    "is_done ?s' = (is_done s \<or> length recs < 100 * (q0 + ?n + nat batch))"
    "requested ?s' = requested s @ [page s .. page s + batch - 1]"
    "transactions ?s' = pending G"
    "cache_path ?s' = d0 @ map partition_of (butlast (month_runs G))"
    by simp_all
  have G2: "take (100 * ?n + 100 * nat batch) ?R = G"
    using FC by (simp add: G_def algebra_simps)
  have "paging recs d0 q0 ?s'"
    unfolding paging_def sel req
    using n0 pos go(1) page by (simp add: nn G2) (simp add: add.assoc)
  with step show ?thesis by (intro exI [of _ ?s']) simp
qed

lemma paging_loop:
  assumes prov: "get_pool_transaction_history e = paged recs"
    and valid: "valid_months (drop (100 * q0) recs)"
    and cont: "months_contiguous (drop (100 * q0) recs)"
    and fresh: "\<forall>run \<in> set (month_runs (drop (100 * q0) recs)).
                  map_of d0 (cache_name (time (hd run))) = None"
  shows "paging recs d0 q0 s \<Longrightarrow> num_calls s \<le> k \<Longrightarrow>
         \<exists>s'. fetch_loop e pool_id k s = Some (Inr s') \<and> paging recs d0 q0 s' \<and>
              (is_done s' \<or> k \<le> num_calls s') \<and> num_calls s' \<le> k"
proof (induction "nat (k - num_calls s)" arbitrary: s rule: less_induct)
  case less
  show ?case
  proof (cases "is_done s \<or> k \<le> num_calls s")
    case True
    then show ?thesis using less.prems fetch_loop_stop [of s k e pool_id] by auto
  next
    case False
    then have go: "\<not> is_done s" "num_calls s < k" by auto
    define batch where
      "batch = (if k < num_calls s + call_batch s then k - num_calls s else call_batch s)"
    from paging_step [OF prov valid cont fresh less.prems(1) go batch_def, of pool_id]
    obtain s1 where s1: "fetch_batch e pool_id k s = Inr s1" "paging recs d0 q0 s1"
      "num_calls s1 = num_calls s + batch" "call_batch s1 = batch" by blast
    have "1 \<le> call_batch s" using less.prems(1) by (simp add: paging_def)
    then have b: "1 \<le> batch" "num_calls s + batch \<le> k"
      using go(2) by (simp_all add: batch_def)
    then have "nat (k - num_calls s1) < nat (k - num_calls s)" using s1(3) go(2) by simp
    from less.hyps [OF this s1(2)] b s1(3)
    obtain s' where "fetch_loop e pool_id k s1 = Some (Inr s')" "paging recs d0 q0 s'"
      "is_done s' \<or> k \<le> num_calls s'" "num_calls s' \<le> k" by auto
    then show ?thesis using fetch_loop_step [OF go s1(1)] by auto
  qed
qed

lemma take_whole:
  assumes "paging recs d0 0 s" and "is_done s \<or> k \<le> num_calls s" and "length recs < 100 * nat k"
  shows "take (100 * nat (num_calls s)) recs = recs"
proof -
  have "length recs < 100 * nat (num_calls s)"
    using assms by (auto simp add: paging_def)
  then show ?thesis by simp
qed

lemma fresh_run:
  assumes prov: "get_pool_transaction_history e = paged recs"
    and valid: "valid_months recs"
    and cont: "months_contiguous recs"
    and len: "length recs < 100 * nat k"
  shows "\<exists>n s. cache_transactions e pool_id k [] = Some (Inr (n, s)) \<and>
               cache_path s = map partition_of (month_runs recs) \<and>
               requested s = [1 .. n] \<and> n \<le> k \<and> num_calls s = n \<and>
               (is_done s \<or> k \<le> n)"
proof -
  define batch1 where "batch1 = (if cpu_count e = 0 then 1 else int (cpu_count e))"
  let ?s0 = "ref_start 1 batch1 []"
  have none: "get_transaction_cache [] = None"
    by (simp add: get_transaction_cache_def open_cache_def)
  have b1: "1 \<le> batch1" by (simp add: batch1_def)
  have k: "0 < k" using len by (cases "0 < k") simp_all
  have inv0: "paging recs [] 0 ?s0"
    using b1 by (simp add: paging_def ref_start_def pending_def)
  have v: "valid_months (drop (100 * 0) recs)" and c: "months_contiguous (drop (100 * 0) recs)"
    and f: "\<forall>run \<in> set (month_runs (drop (100 * 0) recs)).
              map_of [] (cache_name (time (hd run))) = (None :: PoolTransactionReference list option)"
    using valid cont by simp_all
  from paging_loop [OF prov v c f inv0, of k pool_id] k
  obtain s where s: "fetch_loop e pool_id k ?s0 = Some (Inr s)" "paging recs [] 0 s"
    "is_done s \<or> k \<le> num_calls s" "num_calls s \<le> k" by (auto simp add: ref_start_def)
  have whole: "take (100 * nat (num_calls s)) recs = recs"
    using take_whole [OF s(2,3) len] .
  have tr: "transactions s = pending recs"
    and cp: "cache_path s = map partition_of (butlast (month_runs recs))"
    and rq: "requested s = [1 .. num_calls s]"
    using s(2) whole by (simp_all add: paging_def)
  have run: "cache_transactions e pool_id k [] = Some (finish_transactions s)"
    using s(1) b1 by (simp add: cache_transactions_def none resume_estimate_def batch1_def)
  show ?thesis
  proof (cases "recs = []")
    case True
    then have "finish_transactions s = Inr (num_calls s, s)"
      using tr by (simp add: finish_transactions_def pending_def)
    then show ?thesis using run True cp rq s(3,4) by simp
  next
    case False
    have f': "\<forall>run \<in> set (month_runs recs).
        map_of [] (cache_name (time (hd run))) = (None :: PoolTransactionReference list option)"
      by simp
    have "pending recs \<noteq> []" using pending_in_runs [OF False] month_runs_nonempty by blast
    then have "finish_transactions s
        = Inr (num_calls s, s\<lparr>cache_path := map partition_of (month_runs recs)\<rparr>)"
      using finish_flushed [OF valid cont f' False] tr cp
      by (simp add: finish_transactions_def)
    then show ?thesis using run rq s(3,4) by simp
  qed
qed


lemma month_runs_block:
  assumes "xs \<noteq> []" and "\<forall>x \<in> set xs. month (time x) = m"
    and "ys = [] \<or> month (time (hd ys)) \<noteq> m"
  shows "month_runs (xs @ ys) = xs # month_runs ys"
proof -
  obtain x xs' where xs: "xs = x # xs'" using assms(1) by (cases xs) auto
  let ?P = "\<lambda>y. month (time y) = month (time x)"
  have m: "month (time x) = m" and all: "\<forall>y \<in> set xs'. ?P y" using assms(2) xs by simp_all
  have ys: "takeWhile ?P ys = []" "dropWhile ?P ys = ys"
    using assms(3) m by (cases ys; simp)+
  have "takeWhile ?P (xs' @ ys) = xs'" "dropWhile ?P (xs' @ ys) = ys"
    using all ys by (simp_all add: takeWhile_append2 dropWhile_append2)
  then show ?thesis by (simp add: xs)
qed

section \<open>A stream over three calendar months\<close>

text \<open>A non-empty list of records that all lie in the calendar month \<open>(y, m)\<close>.\<close>

definition in_month :: "nat \<Rightarrow> nat \<Rightarrow> PoolTransactionReference list \<Rightarrow> bool" where
  "in_month y m xs = (xs \<noteq> [] \<and> list_all (\<lambda>r. year (time r) = y \<and> month (time r) = m) xs)"

definition next_month :: "nat \<times> nat \<Rightarrow> nat \<times> nat" where
  "next_month ym = (if snd ym = 12 then (fst ym + 1, 1) else (fst ym, snd ym + 1))"

definition time_ordered :: "PoolTransactionReference list \<Rightarrow> bool" where
  "time_ordered xs = sorted (map (\<lambda>r. datetime64 (time r)) xs)"

definition feb3 :: PoolTransactionReference where
  "feb3 = mk_reference 5 (mk_datetime 2023 2 3 0)"

definition mar7 :: PoolTransactionReference where
  "mar7 = mk_reference 6 (mk_datetime 2023 3 7 0)"

lemma in_monthD:
  assumes "in_month y m xs"
  shows "xs \<noteq> []" and "\<forall>x \<in> set xs. month (time x) = m" and "\<forall>x \<in> set xs. year (time x) = y"
    and "month (time (hd xs)) = m" and "year (time (hd xs)) = y"
  using assms by (auto simp add: in_month_def list_all_iff)

text \<open>
  C4. A time-ordered stream over three consecutive calendar months, with records
  in each: the flush loop on the whole stream flushes the two leading months and
  leaves the third pending; a run of \<open>cache_transactions\<close> that pages through the
  stream, in whatever batches, ends with exactly three partition files, named by
  the three months, each holding exactly the records of its month, in time
  order.
\<close>

theorem three_month_split:
  assumes "in_month y1 m1 xs1" and "in_month y2 m2 xs2" and "in_month y3 m3 xs3"
    and "1 \<le> m1" and "m1 \<le> 12"
    and "(y2, m2) = next_month (y1, m1)" and "(y3, m3) = next_month (y2, m2)"
    and "time_ordered (xs1 @ xs2 @ xs3)"
    and "get_pool_transaction_history e = paged (xs1 @ xs2 @ xs3)"
    and "length (xs1 @ xs2 @ xs3) < 100 * nat k"
  shows "flush_while time (\<lambda>ts. ts) time (xs1 @ xs2 @ xs3) []
           = Inr (xs3, [(cache_name (time (hd xs1)), xs1), (cache_name (time (hd xs2)), xs2)]) \<and>
         (\<exists>n s. cache_transactions e pool_id k [] = Some (Inr (n, s)) \<and>
                cache_path s = [(cache_name (time (hd xs1)), xs1),
                                (cache_name (time (hd xs2)), xs2),
                                (cache_name (time (hd xs3)), xs3)]) \<and>
         distinct [cache_name (time (hd xs1)), cache_name (time (hd xs2)), cache_name (time (hd xs3))] \<and>
         cache_name (time (hd xs1)) = str_nat y1 @ zfill 2 (str_nat m1) @ ''.arrow'' \<and>
         cache_name (time (hd xs2)) = str_nat y2 @ zfill 2 (str_nat m2) @ ''.arrow'' \<and>
         cache_name (time (hd xs3)) = str_nat y3 @ zfill 2 (str_nat m3) @ ''.arrow'' \<and>
         time_ordered xs1 \<and> time_ordered xs2 \<and> time_ordered xs3"
proof -
  let ?recs = "xs1 @ xs2 @ xs3"
  note a = in_monthD [OF assms(1)] and b = in_monthD [OF assms(2)] and c = in_monthD [OF assms(3)]
  have months: "m1 \<noteq> m2" "m2 \<noteq> m3" "m1 \<noteq> m3" "m2 \<le> 12" "m3 \<le> 12"
    "1 \<le> m2" "1 \<le> m3"
    using assms(4,5,6,7) by (auto simp add: next_month_def split: if_splits)
  have r3: "month_runs xs3 = [xs3]"
    using month_runs_block [OF c(1,2), of "[]"] by simp
  have r2: "month_runs (xs2 @ xs3) = [xs2, xs3]"
    using month_runs_block [OF b(1,2), of xs3] c(4) months(2) r3 by simp
  have r1: "month_runs ?recs = [xs1, xs2, xs3]"
    using month_runs_block [OF a(1,2), of "xs2 @ xs3"] b(1,4) months(1) r2 by simp
  have valid: "valid_months ?recs"
    using a(2) b(2) c(2) assms(4,5) months(4,5,6,7)
    by (auto simp add: valid_months_def list_all_iff)
  have cont: "months_contiguous ?recs"
    using months a(4) b(4) c(4) by (simp add: months_contiguous_def r1)
  have fresh: "\<forall>run \<in> set (month_runs ?recs).
      map_of [] (cache_name (time (hd run))) = (None :: PoolTransactionReference list option)"
    by simp
  have flush: "flush_while time (\<lambda>ts. ts) time ?recs []
      = Inr (xs3, [(cache_name (time (hd xs1)), xs1), (cache_name (time (hd xs2)), xs2)])"
    using flush_runs [OF valid cont fresh] a(1) by (simp add: r1 pending_def partition_of_def)
  from fresh_run [OF assms(9) valid cont assms(10), of pool_id]
  have run: "\<exists>n s. cache_transactions e pool_id k [] = Some (Inr (n, s)) \<and>
      cache_path s = [(cache_name (time (hd xs1)), xs1), (cache_name (time (hd xs2)), xs2),
                      (cache_name (time (hd xs3)), xs3)]"
    by (auto simp add: r1 partition_of_def)
  have le: "month (time (hd xs1)) \<le> 12" "month (time (hd xs2)) \<le> 12" "month (time (hd xs3)) \<le> 12"
    using a(4) b(4) c(4) assms(5) months(4,5) by simp_all
  have names: "distinct [cache_name (time (hd xs1)), cache_name (time (hd xs2)), cache_name (time (hd xs3))]"
    using cache_name_fresh [of "hd xs1" "hd xs2"] cache_name_fresh [of "hd xs2" "hd xs3"]
      cache_name_fresh [of "hd xs1" "hd xs3"] le months(1,2,3) a(4) b(4) c(4)
    by simp
  have files: "cache_name (time (hd xs1)) = str_nat y1 @ zfill 2 (str_nat m1) @ ''.arrow''"
    "cache_name (time (hd xs2)) = str_nat y2 @ zfill 2 (str_nat m2) @ ''.arrow''"
    "cache_name (time (hd xs3)) = str_nat y3 @ zfill 2 (str_nat m3) @ ''.arrow''"
    using a(4,5) b(4,5) c(4,5) by (simp_all add: cache_name_def)
  have ordered: "time_ordered xs1" "time_ordered xs2" "time_ordered xs3"
    using assms(8) by (simp_all add: time_ordered_def sorted_append)
  show ?thesis using flush run names files ordered by blast
qed


theorem three_month_split_witness:
  "in_month 2023 1 [jan5, jan9] \<and> in_month 2023 2 [feb3] \<and> in_month 2023 3 [mar7] \<and>
   (2023, 2) = next_month (2023, 1) \<and> (2023, 3) = next_month (2023, 2) \<and>
   time_ordered ([jan5, jan9] @ [feb3] @ [mar7]) \<and>
   flush_while time (\<lambda>ts. ts) time ([jan5, jan9] @ [feb3] @ [mar7]) []
     = Inr ([mar7], [(''202301.arrow'', [jan5, jan9]), (''202302.arrow'', [feb3])]) \<and>
   map_option (map_sum id (cache_path \<circ> snd))
     (cache_transactions (example_env 4 ([jan5, jan9] @ [feb3] @ [mar7])) ''pool1'' 10 [])
     = Some (Inr [(''202301.arrow'', [jan5, jan9]), (''202302.arrow'', [feb3]),
                  (''202303.arrow'', [mar7])])"
proof -
  let ?recs = "[jan5, jan9] @ [feb3] @ [mar7]"
  let ?e = "example_env 4 ?recs"
  have h1: "in_month 2023 1 [jan5, jan9]" and h2: "in_month 2023 2 [feb3]"
    and h3: "in_month 2023 3 [mar7]"
    by (simp_all add: in_month_def jan5_def jan9_def feb3_def mar7_def mk_reference_def
        mk_datetime_def)
  have n1: "(2023, 2) = next_month (2023, 1)" and n2: "(2023, 3) = next_month (2023, 2)"
    by (simp_all add: next_month_def)
  have ord: "time_ordered ?recs" by code_simp
  have prov: "get_pool_transaction_history ?e = paged ?recs" by (simp add: example_env_def)
  have len: "length ?recs < 100 * nat 10" by simp
  have names: "cache_name (time (hd [jan5, jan9])) = ''202301.arrow''"
    "cache_name (time (hd [feb3])) = ''202302.arrow''"
    "cache_name (time (hd [mar7])) = ''202303.arrow''"
    by code_simp+
  have lo: "(1::nat) \<le> 1" and hi: "(1::nat) \<le> 12" by simp_all
  from three_month_split [OF h1 h2 h3 lo hi n1 n2 ord prov len, of "''pool1''"]
  have "flush_while time (\<lambda>ts. ts) time ?recs []
          = Inr ([mar7], [(cache_name (time (hd [jan5, jan9])), [jan5, jan9]),
                          (cache_name (time (hd [feb3])), [feb3])]) \<and>
        (\<exists>n s. cache_transactions ?e ''pool1'' 10 [] = Some (Inr (n, s)) \<and>
           cache_path s = [(cache_name (time (hd [jan5, jan9])), [jan5, jan9]),
                           (cache_name (time (hd [feb3])), [feb3]),
                           (cache_name (time (hd [mar7])), [mar7])])"
    by blast
  then have "flush_while time (\<lambda>ts. ts) time ?recs []
          = Inr ([mar7], [(''202301.arrow'', [jan5, jan9]), (''202302.arrow'', [feb3])]) \<and>
        (\<exists>n s. cache_transactions ?e ''pool1'' 10 [] = Some (Inr (n, s)) \<and>
           cache_path s = [(''202301.arrow'', [jan5, jan9]), (''202302.arrow'', [feb3]),
                           (''202303.arrow'', [mar7])])"
    by (simp only: names)
  then have "flush_while time (\<lambda>ts. ts) time ?recs []
          = Inr ([mar7], [(''202301.arrow'', [jan5, jan9]), (''202302.arrow'', [feb3])]) \<and>
        map_option (map_sum id (cache_path \<circ> snd)) (cache_transactions ?e ''pool1'' 10 [])
          = Some (Inr [(''202301.arrow'', [jan5, jan9]), (''202302.arrow'', [feb3]),
                       (''202303.arrow'', [mar7])])"
    by auto
  with h1 h2 h3 n1 n2 ord show ?thesis by blast
qed

section \<open>Reading back the partitions\<close>














section \<open>Two hundred and fifty records into an empty cache\<close>











end
